theory Spec2Isabelle
  imports Main "HOL-Library.Word"
begin

unbundle bit_operations_syntax

section \<open>Data model\<close>

text \<open>
  The package \<open>biosimd\<close> works on Go byte slices.  A slice is modelled by the list of its
  \<open>len\<close> bytes; \<open>dst\<close> and \<open>src\<close> are distinct buffers (the caller owns both, they do not
  overlap).  Go's \<open>int\<close> is 64 bits wide and a slice length is below \<open>2^63\<close>, so none of the
  additions and subtractions on indices and pointers can wrap; indices that never go
  negative are \<open>nat\<close>, the others (\<open>invIdx\<close>, the registers of the assembly routines) are
  \<open>int\<close>.  A pointer register holds the offset from the base of the slice it points into.
  The one logical shift of a register, \<open>SHRQ\<close>, is taken modulo \<open>2^64\<close>.
\<close>

type_synonym byte = "8 word"

text \<open>
  How a call can end other than by returning: the explicit \<open>panic(msg)\<close> of the length
  checks, the run-time panic of an index expression out of range, and an access of an
  assembly routine that leaves the bytes \<open>[0, len)\<close> of the slice it was handed.
\<close>

datatype error = Panic string | IndexOutOfRange | MemoryFault

text \<open>
  The buffer that a call writes is threaded through the model and is part of every
  outcome, also of a failing one: it holds what the caller's buffer contains when the
  call returns or panics.
\<close>

datatype outcome = Returns "byte list" | Fails error "byte list"

definition andThen :: "outcome \<Rightarrow> (byte list \<Rightarrow> outcome) \<Rightarrow> outcome" where
  "andThen r f = (case r of Returns b \<Rightarrow> f b | Fails e b \<Rightarrow> Fails e b)"

text \<open>Go index expressions \<open>xs[i]\<close> and \<open>xs[i] = v\<close>: \<open>None\<close> is the run-time panic.\<close>

definition at :: "'a list \<Rightarrow> int \<Rightarrow> 'a option" where
  "at xs i = (if 0 \<le> i \<and> i < int (length xs) then Some (xs ! nat i) else None)"

definition set_at :: "'a list \<Rightarrow> int \<Rightarrow> 'a \<Rightarrow> 'a list option" where
  "set_at xs i v = (if 0 \<le> i \<and> i < int (length xs) then Some (xs[nat i := v]) else None)"

text \<open>\<open>init()\<close> sets \<open>bytesPerVec = 16\<close> (and panics without SSE4.2).\<close>

definition bytesPerVec :: nat where
  "bytesPerVec = 16"

section \<open>SSE registers and instructions\<close>

text \<open>
  An XMM register is the list of its 16 bytes, byte 0 (the least significant, the one at
  the lowest address after \<open>MOVOU\<close>) first.  The operands keep the order of the Go
  assembler: source first, destination second; each function returns the new value of
  the destination register.
\<close>

definition lane_of_bytes :: "byte list \<Rightarrow> 64 word" where
  "lane_of_bytes bs = foldr (\<lambda>b w. ucast b OR push_bit 8 w) bs 0"

definition bytes_of_lane :: "64 word \<Rightarrow> byte list" where
  "bytes_of_lane w = map (\<lambda>i. ucast (drop_bit (8 * i) w)) [0..<8]"

definition per_lane :: "(64 word \<Rightarrow> 64 word) \<Rightarrow> byte list \<Rightarrow> byte list" where
  "per_lane f v = bytes_of_lane (f (lane_of_bytes (take 8 v)))
                @ bytes_of_lane (f (lane_of_bytes (drop 8 v)))"

text \<open>A 16-byte constant of the \<open>DATA\<close> section, given by its two quadwords.\<close>

definition xmm_data :: "64 word \<Rightarrow> 64 word \<Rightarrow> byte list" where
  "xmm_data lo hi = bytes_of_lane lo @ bytes_of_lane hi"

definition PSRLQ :: "nat \<Rightarrow> byte list \<Rightarrow> byte list" where
  "PSRLQ k d = per_lane (drop_bit k) d"

definition PSLLQ :: "nat \<Rightarrow> byte list \<Rightarrow> byte list" where
  "PSLLQ k d = per_lane (push_bit k) d"

definition PAND :: "byte list \<Rightarrow> byte list \<Rightarrow> byte list" where
  "PAND s d = map2 (\<lambda>x y. x AND y) d s"

definition POR :: "byte list \<Rightarrow> byte list \<Rightarrow> byte list" where
  "POR s d = map2 (\<lambda>x y. x OR y) d s"

definition PXOR :: "byte list \<Rightarrow> byte list \<Rightarrow> byte list" where
  "PXOR s d = map2 (\<lambda>x y. x XOR y) d s"

definition PADDB :: "byte list \<Rightarrow> byte list \<Rightarrow> byte list" where
  "PADDB s d = map2 (\<lambda>x y. x + y) d s"

text \<open>
  \<open>PSHUFB s d\<close>: byte \<open>i\<close> of the result is 0 when bit 7 of \<open>s[i]\<close> is set, and byte
  \<open>s[i] & 15\<close> of \<open>d\<close> otherwise.
\<close>

definition PSHUFB :: "byte list \<Rightarrow> byte list \<Rightarrow> byte list" where
  "PSHUFB s d = map (\<lambda>c. if bit c 7 then 0 else d ! unat (c AND 15)) s"

definition PUNPCKLBW :: "byte list \<Rightarrow> byte list \<Rightarrow> byte list" where
  "PUNPCKLBW s d = concat (map2 (\<lambda>x y. [x, y]) (take 8 d) (take 8 s))"

definition PUNPCKHBW :: "byte list \<Rightarrow> byte list \<Rightarrow> byte list" where
  "PUNPCKHBW s d = concat (map2 (\<lambda>x y. [x, y]) (drop 8 d) (drop 8 s))"

text \<open>
  \<open>MOVOU (p), X\<close> and \<open>MOVOU X, (p)\<close> on a slice: 16 bytes at offset \<open>p\<close>.  The safe entry
  points hand the routines slices without spare capacity, so an access that is not
  inside \<open>[0, len)\<close> is a fault (\<open>None\<close>).
\<close>

definition MOVOU_load :: "byte list \<Rightarrow> int \<Rightarrow> byte list option" where
  "MOVOU_load mem p =
     (if 0 \<le> p \<and> p + 16 \<le> int (length mem) then Some (take 16 (drop (nat p) mem)) else None)"

definition MOVOU_store :: "byte list \<Rightarrow> int \<Rightarrow> byte list \<Rightarrow> byte list option" where
  "MOVOU_store mem p v =
     (if 0 \<le> p \<and> p + 16 \<le> int (length mem)
      then Some (take (nat p) mem @ v @ drop (nat p + 16) mem) else None)"

definition Mask0f0f :: "byte list" where
  "Mask0f0f = xmm_data 0x0f0f0f0f0f0f0f0f 0x0f0f0f0f0f0f0f0f"

definition Mask0303 :: "byte list" where
  "Mask0303 = xmm_data 0x0303030303030303 0x0303030303030303"

definition GatherOddLow :: "byte list" where
  "GatherOddLow = xmm_data 0x0f0d0b0907050301 0xffffffffffffffff"

definition GatherOddHigh :: "byte list" where
  "GatherOddHigh = xmm_data 0xffffffffffffffff 0x0f0d0b0907050301"

definition Reverse8 :: "byte list" where
  "Reverse8 = xmm_data 0x08090a0b0c0d0e0f 0x0001020304050607"

definition Reverse8Minus16 :: "byte list" where
  "Reverse8Minus16 = xmm_data 0xf8f9fafbfcfdfeff 0xf0f1f2f3f4f5f6f7"

definition ReverseComp4Lookup :: "byte list" where
  "ReverseComp4Lookup = xmm_data 0x0e060a020c040800 0x0f070b030d050901"

section \<open>UnpackSeq\<close>

text \<open>
  The register computation shared by the loop body and the final block of
  \<open>unpackSeqOddSSE2Asm\<close>: from the 16 source bytes in \<open>X1\<close> to the 32 unpacked bytes in
  \<open>(X1, X3)\<close>.
\<close>

definition unpackSeqOddSSE2Body :: "byte list \<Rightarrow> byte list \<Rightarrow> byte list \<times> byte list" where
  "unpackSeqOddSSE2Body X0 X1 =
     (let X2 = X1;
          X1 = PSRLQ 4 X1;
          X2 = PAND X0 X2;
          X1 = PAND X0 X1;
          X3 = X1;
          X1 = PUNPCKLBW X2 X1;
          X3 = PUNPCKHBW X2 X3
      in (X1, X3))"

function unpackSeqOddSSE2Loop ::
  "byte list \<Rightarrow> int \<Rightarrow> int \<Rightarrow> int \<Rightarrow> byte list \<Rightarrow> byte list \<Rightarrow> outcome" where
  "unpackSeqOddSSE2Loop X0 CX DI R8 src dst =
     (case MOVOU_load src DI of None \<Rightarrow> Fails MemoryFault dst | Some X1 \<Rightarrow>
      (case unpackSeqOddSSE2Body X0 X1 of (X1, X3) \<Rightarrow>
      (case MOVOU_store dst R8 X1 of None \<Rightarrow> Fails MemoryFault dst | Some dst1 \<Rightarrow>
      (case MOVOU_store dst1 (R8 + 16) X3 of None \<Rightarrow> Fails MemoryFault dst1 | Some dst2 \<Rightarrow>
       if CX > DI + 16 then unpackSeqOddSSE2Loop X0 CX (DI + 16) (R8 + 32) src dst2
       else Returns dst2))))"
  by pat_completeness auto
termination
  by (relation "measure (\<lambda>(X0, CX, DI, R8, src, dst). nat (CX - DI))") auto

declare unpackSeqOddSSE2Loop.simps [simp del]

definition unpackSeqOddSSE2Asm :: "byte list \<Rightarrow> byte list \<Rightarrow> int \<Rightarrow> outcome" where
  "unpackSeqOddSSE2Asm dst src nSrcFullByte =
     (let R8 = 0; DI = 0; CX = nSrcFullByte;
          X0 = Mask0f0f;
          CX = CX - 16;
          AX = R8 + CX * 2;
          CX = CX + DI
      in andThen (unpackSeqOddSSE2Loop X0 CX DI R8 src dst) (\<lambda>dst.
         case MOVOU_load src CX of None \<Rightarrow> Fails MemoryFault dst | Some X1 \<Rightarrow>
         (case unpackSeqOddSSE2Body X0 X1 of (X1, X3) \<Rightarrow>
         (case MOVOU_store dst AX X1 of None \<Rightarrow> Fails MemoryFault dst | Some dst1 \<Rightarrow>
         (case MOVOU_store dst1 (AX + 16) X3 of None \<Rightarrow> Fails MemoryFault dst1
          | Some dst2 \<Rightarrow> Returns dst2)))))"

function UnpackSeq_loop :: "nat \<Rightarrow> nat \<Rightarrow> byte list \<Rightarrow> byte list \<Rightarrow> outcome" where
  "UnpackSeq_loop srcPos nSrcFullByte dst src =
     (if srcPos < nSrcFullByte then
        (case at src (int srcPos) of None \<Rightarrow> Fails IndexOutOfRange dst | Some srcByte \<Rightarrow>
        (case set_at dst (int (2 * srcPos)) (drop_bit 4 srcByte) of
           None \<Rightarrow> Fails IndexOutOfRange dst | Some dst1 \<Rightarrow>
        (case set_at dst1 (int (2 * srcPos + 1)) (srcByte AND 15) of
           None \<Rightarrow> Fails IndexOutOfRange dst1 | Some dst2 \<Rightarrow>
         UnpackSeq_loop (srcPos + 1) nSrcFullByte dst2 src)))
      else Returns dst)"
  by pat_completeness auto
termination
  by (relation "measure (\<lambda>(srcPos, nSrcFullByte, dst, src). nSrcFullByte - srcPos)") auto

declare UnpackSeq_loop.simps [simp del]

definition UnpackSeq :: "byte list \<Rightarrow> byte list \<Rightarrow> outcome" where
  "UnpackSeq dst src =
     (let dstLen = length dst;
          nSrcFullByte = drop_bit 1 dstLen;
          srcOdd = dstLen AND 1
      in if length src \<noteq> nSrcFullByte + srcOdd
         then Fails (Panic ''UnpackSeq() requires len(src) == (len(dst) + 1) / 2.'') dst
         else andThen
           (if nSrcFullByte < bytesPerVec then UnpackSeq_loop 0 nSrcFullByte dst src
            else unpackSeqOddSSE2Asm dst src (int nSrcFullByte))
           (\<lambda>dst. if srcOdd = 1 then
              (case at src (int nSrcFullByte) of None \<Rightarrow> Fails IndexOutOfRange dst
               | Some srcByte \<Rightarrow>
              (case set_at dst (int (2 * nSrcFullByte)) (drop_bit 4 srcByte) of
                 None \<Rightarrow> Fails IndexOutOfRange dst | Some dst1 \<Rightarrow> Returns dst1))
            else Returns dst))"

section \<open>PackSeq\<close>

text \<open>
  The register computation shared by the loop body and the final block of
  \<open>packSeqOddSSSE3Asm\<close>: from the 32 source bytes in \<open>(X2, X3)\<close> to the 16 packed bytes.
\<close>

definition packSeqOddSSSE3Body ::
  "byte list \<Rightarrow> byte list \<Rightarrow> byte list \<Rightarrow> byte list \<Rightarrow> byte list" where
  "packSeqOddSSSE3Body X0 X1 X2 X3 =
     (let X4 = X2;
          X5 = X3;
          X2 = PSLLQ 12 X2;
          X3 = PSLLQ 12 X3;
          X2 = POR X4 X2;
          X3 = POR X5 X3;
          X2 = PSHUFB X0 X2;
          X3 = PSHUFB X1 X3;
          X2 = POR X3 X2
      in X2)"

function packSeqOddSSSE3Loop ::
  "byte list \<Rightarrow> byte list \<Rightarrow> int \<Rightarrow> int \<Rightarrow> int \<Rightarrow> byte list \<Rightarrow> byte list \<Rightarrow> outcome" where
  "packSeqOddSSSE3Loop X0 X1 AX DI R8 src dst =
     (case MOVOU_load src DI of None \<Rightarrow> Fails MemoryFault dst | Some X2 \<Rightarrow>
      (case MOVOU_load src (DI + 16) of None \<Rightarrow> Fails MemoryFault dst | Some X3 \<Rightarrow>
      (case MOVOU_store dst R8 (packSeqOddSSSE3Body X0 X1 X2 X3) of
         None \<Rightarrow> Fails MemoryFault dst | Some dst1 \<Rightarrow>
       if AX > DI + 32 then packSeqOddSSSE3Loop X0 X1 AX (DI + 32) (R8 + 16) src dst1
       else Returns dst1)))"
  by pat_completeness auto
termination
  by (relation "measure (\<lambda>(X0, X1, AX, DI, R8, src, dst). nat (AX - DI))") auto

declare packSeqOddSSSE3Loop.simps [simp del]

definition packSeqOddSSSE3Asm :: "byte list \<Rightarrow> byte list \<Rightarrow> int \<Rightarrow> outcome" where
  "packSeqOddSSSE3Asm dst src nDstFullByte =
     (let R8 = 0; DI = 0; CX = nDstFullByte;
          X0 = GatherOddLow;
          X1 = GatherOddHigh;
          CX = CX - 16;
          AX = DI + CX * 2;
          CX = CX + R8
      in andThen (packSeqOddSSSE3Loop X0 X1 AX DI R8 src dst) (\<lambda>dst.
         case MOVOU_load src AX of None \<Rightarrow> Fails MemoryFault dst | Some X2 \<Rightarrow>
         (case MOVOU_load src (AX + 16) of None \<Rightarrow> Fails MemoryFault dst | Some X3 \<Rightarrow>
         (case MOVOU_store dst CX (packSeqOddSSSE3Body X0 X1 X2 X3) of
            None \<Rightarrow> Fails MemoryFault dst | Some dst1 \<Rightarrow> Returns dst1))))"

function PackSeq_loop :: "nat \<Rightarrow> nat \<Rightarrow> byte list \<Rightarrow> byte list \<Rightarrow> outcome" where
  "PackSeq_loop dstPos nDstFullByte dst src =
     (if dstPos < nDstFullByte then
        (case at src (int (2 * dstPos)) of None \<Rightarrow> Fails IndexOutOfRange dst | Some hi \<Rightarrow>
        (case at src (int (2 * dstPos + 1)) of None \<Rightarrow> Fails IndexOutOfRange dst | Some lo \<Rightarrow>
        (case set_at dst (int dstPos) (push_bit 4 hi OR lo) of
           None \<Rightarrow> Fails IndexOutOfRange dst | Some dst1 \<Rightarrow>
         PackSeq_loop (dstPos + 1) nDstFullByte dst1 src)))
      else Returns dst)"
  by pat_completeness auto
termination
  by (relation "measure (\<lambda>(dstPos, nDstFullByte, dst, src). nDstFullByte - dstPos)") auto

declare PackSeq_loop.simps [simp del]

definition PackSeq :: "byte list \<Rightarrow> byte list \<Rightarrow> outcome" where
  "PackSeq dst src =
     (let srcLen = length src;
          nDstFullByte = drop_bit 1 srcLen;
          dstOdd = srcLen AND 1
      in if length dst \<noteq> nDstFullByte + dstOdd
         then Fails (Panic ''PackSeq() requires len(dst) == (len(src) + 1) / 2.'') dst
         else andThen
           (if nDstFullByte < bytesPerVec then PackSeq_loop 0 nDstFullByte dst src
            else packSeqOddSSSE3Asm dst src (int nDstFullByte))
           (\<lambda>dst. if dstOdd = 1 then
              (case at src (int (nDstFullByte * 2)) of None \<Rightarrow> Fails IndexOutOfRange dst
               | Some b \<Rightarrow>
              (case set_at dst (int nDstFullByte) (push_bit 4 b) of
                 None \<Rightarrow> Fails IndexOutOfRange dst | Some dst1 \<Rightarrow> Returns dst1))
            else Returns dst))"

section \<open>ReverseComp and ReverseCompInplace\<close>

definition revCompTable :: "byte list" where
  "revCompTable = [0, 8, 4, 12, 2, 10, 6, 14, 1, 9, 5, 13, 3, 11, 7, 15]"

text \<open>
  The Go file declares the routines as \<open>reverseCompSSSE3Asm\<close> and
  \<open>reverseCompInplaceSSSE3Asm\<close>; the assembly file defines them under the names
  \<open>reverseComp4SSSE3Asm\<close> and \<open>reverseComp4InplaceSSSE3Asm\<close> (next to the \<open>reverseComp2\<close>
  variants).  The model keeps the names of the assembly file.
\<close>

function reverseComp4SSSE3Loop ::
  "byte list \<Rightarrow> byte list \<Rightarrow> int \<Rightarrow> int \<Rightarrow> int \<Rightarrow> byte list \<Rightarrow> byte list \<Rightarrow> outcome" where
  "reverseComp4SSSE3Loop X0 X1 CX SI DI src dst =
     (case MOVOU_load src SI of None \<Rightarrow> Fails MemoryFault dst | Some X2 \<Rightarrow>
      (let X2 = PSHUFB X0 X2;
           X3 = X1;
           X3 = PSHUFB X2 X3
       in case MOVOU_store dst DI X3 of None \<Rightarrow> Fails MemoryFault dst | Some dst1 \<Rightarrow>
          if CX > DI + 16 then reverseComp4SSSE3Loop X0 X1 CX (SI - 16) (DI + 16) src dst1
          else Returns dst1))"
  by pat_completeness auto
termination
  by (relation "measure (\<lambda>(X0, X1, CX, SI, DI, src, dst). nat (CX - DI))") auto

declare reverseComp4SSSE3Loop.simps [simp del]

definition reverseComp4SSSE3Asm :: "byte list \<Rightarrow> byte list \<Rightarrow> int \<Rightarrow> outcome" where
  "reverseComp4SSSE3Asm dst src nByte =
     (let DI = 0; BX = 0; AX = nByte;
          SI = - 16 + BX + AX;
          CX = - 16 + DI + AX;
          X0 = Reverse8;
          X1 = ReverseComp4Lookup
      in andThen (reverseComp4SSSE3Loop X0 X1 CX SI DI src dst) (\<lambda>dst.
         case MOVOU_load src BX of None \<Rightarrow> Fails MemoryFault dst | Some X2 \<Rightarrow>
         (let X2 = PSHUFB X0 X2;
              X1 = PSHUFB X2 X1
          in case MOVOU_store dst CX X1 of None \<Rightarrow> Fails MemoryFault dst
             | Some dst1 \<Rightarrow> Returns dst1)))"

function ReverseComp_loop :: "nat \<Rightarrow> int \<Rightarrow> nat \<Rightarrow> byte list \<Rightarrow> byte list \<Rightarrow> outcome" where
  "ReverseComp_loop idx invIdx nByte dst src =
     (if idx \<noteq> nByte then
        (case at src invIdx of None \<Rightarrow> Fails IndexOutOfRange dst | Some c \<Rightarrow>
        (case at revCompTable (uint c) of None \<Rightarrow> Fails IndexOutOfRange dst | Some v \<Rightarrow>
        (case set_at dst (int idx) v of None \<Rightarrow> Fails IndexOutOfRange dst | Some dst1 \<Rightarrow>
         ReverseComp_loop (idx + 1) (invIdx - 1) nByte dst1 src)))
      else Returns dst)"
  by pat_completeness auto
termination
  by (relation "measure (\<lambda>(idx, invIdx, nByte, dst, src). length dst - idx)")
     (auto simp add: set_at_def split: if_splits)

declare ReverseComp_loop.simps [simp del]

definition ReverseComp :: "byte list \<Rightarrow> byte list \<Rightarrow> outcome" where
  "ReverseComp dst src =
     (let nByte = length src
      in if length dst \<noteq> length src
         then Fails (Panic ''ReverseComp() requires len(dst) == len(src).'') dst
         else if nByte < bytesPerVec
         then ReverseComp_loop 0 (int nByte - 1) nByte dst src
         else reverseComp4SSSE3Asm dst src (int nByte))"

text \<open>
  \<open>SHRQ\<close> is a logical shift of the 64-bit register: the register's unsigned value is
  the integer modulo \<open>2^64\<close>.
\<close>

definition SHRQ :: "nat \<Rightarrow> int \<Rightarrow> int" where
  "SHRQ k x = (x mod 2 ^ 64) div 2 ^ k"

definition reverseComp4InplaceSSSE3LastThree ::
  "byte list \<Rightarrow> byte list \<Rightarrow> int \<Rightarrow> int \<Rightarrow> byte list \<Rightarrow> outcome" where
  "reverseComp4InplaceSSSE3LastThree X0 X1 SI DI seq8 =
     (case MOVOU_load seq8 SI of None \<Rightarrow> Fails MemoryFault seq8 | Some X2 \<Rightarrow>
     (case MOVOU_load seq8 (SI + 16) of None \<Rightarrow> Fails MemoryFault seq8 | Some X3 \<Rightarrow>
     (case MOVOU_load seq8 DI of None \<Rightarrow> Fails MemoryFault seq8 | Some X4 \<Rightarrow>
      (let X2 = PSHUFB X0 X2;
           X3 = PSHUFB X0 X3;
           X4 = PSHUFB X0 X4;
           X5 = X1;
           X6 = X1;
           X1 = PSHUFB X4 X1;
           X5 = PSHUFB X2 X5;
           X6 = PSHUFB X3 X6
       in case MOVOU_store seq8 SI X1 of None \<Rightarrow> Fails MemoryFault seq8 | Some s1 \<Rightarrow>
         (case MOVOU_store s1 (DI - 16) X6 of None \<Rightarrow> Fails MemoryFault s1 | Some s2 \<Rightarrow>
         (case MOVOU_store s2 DI X5 of None \<Rightarrow> Fails MemoryFault s2
          | Some s3 \<Rightarrow> Returns s3))))))"

text \<open>
  The loop of \<open>reverseComp4InplaceSSSE3Asm\<close> together with the code that follows it: when
  the loop is left, \<open>BX \<noteq> 0\<close> returns and \<open>BX = 0\<close> falls through to the last three vectors.
\<close>

function reverseComp4InplaceSSSE3Loop ::
  "byte list \<Rightarrow> byte list \<Rightarrow> int \<Rightarrow> int \<Rightarrow> int \<Rightarrow> int \<Rightarrow> byte list \<Rightarrow> outcome" where
  "reverseComp4InplaceSSSE3Loop X0 X1 AX BX SI DI seq8 =
     (case MOVOU_load seq8 SI of None \<Rightarrow> Fails MemoryFault seq8 | Some X2 \<Rightarrow>
     (case MOVOU_load seq8 DI of None \<Rightarrow> Fails MemoryFault seq8 | Some X3 \<Rightarrow>
      (let X2 = PSHUFB X0 X2;
           X3 = PSHUFB X0 X3;
           X4 = X1;
           X5 = X1;
           X4 = PSHUFB X2 X4;
           X5 = PSHUFB X3 X5
       in case MOVOU_store seq8 SI X5 of None \<Rightarrow> Fails MemoryFault seq8 | Some s1 \<Rightarrow>
         (case MOVOU_store s1 DI X4 of None \<Rightarrow> Fails MemoryFault s1 | Some s2 \<Rightarrow>
          if AX \<ge> SI + 16
          then reverseComp4InplaceSSSE3Loop X0 X1 AX BX (SI + 16) (DI - 16) s2
          else if BX \<noteq> 0 then Returns s2
          else reverseComp4InplaceSSSE3LastThree X0 X1 (SI + 16) (DI - 16) s2))))"
  by pat_completeness auto
termination
  by (relation "measure (\<lambda>(X0, X1, AX, BX, SI, DI, seq8). nat (AX - SI + 1))") auto

declare reverseComp4InplaceSSSE3Loop.simps [simp del]

definition reverseComp4InplaceSSSE3Asm :: "byte list \<Rightarrow> int \<Rightarrow> outcome" where
  "reverseComp4InplaceSSSE3Asm seq8 nByte =
     (let SI = 0; AX = nByte;
          DI = - 16 + SI + AX;
          X0 = Reverse8;
          X1 = ReverseComp4Lookup;
          AX = AX - 1;
          AX = SHRQ 1 AX;
          BX = AX;
          BX = BX AND 8;
          CX = AX + BX * 2;
          AX = - 24 + SI + CX
      in if AX < SI then reverseComp4InplaceSSSE3LastThree X0 X1 SI DI seq8
         else reverseComp4InplaceSSSE3Loop X0 X1 AX BX SI DI seq8)"

function ReverseCompInplace_loop :: "nat \<Rightarrow> int \<Rightarrow> nat \<Rightarrow> byte list \<Rightarrow> outcome" where
  "ReverseCompInplace_loop idx invIdx nByteDiv2 seq8 =
     (if idx \<noteq> nByteDiv2 then
        (case at seq8 invIdx of None \<Rightarrow> Fails IndexOutOfRange seq8 | Some a \<Rightarrow>
        (case at revCompTable (uint a) of None \<Rightarrow> Fails IndexOutOfRange seq8 | Some ra \<Rightarrow>
        (case at seq8 (int idx) of None \<Rightarrow> Fails IndexOutOfRange seq8 | Some b \<Rightarrow>
        (case at revCompTable (uint b) of None \<Rightarrow> Fails IndexOutOfRange seq8 | Some rb \<Rightarrow>
        (case set_at seq8 (int idx) ra of None \<Rightarrow> Fails IndexOutOfRange seq8 | Some s1 \<Rightarrow>
        (case set_at s1 invIdx rb of None \<Rightarrow> Fails IndexOutOfRange s1 | Some s2 \<Rightarrow>
         ReverseCompInplace_loop (idx + 1) (invIdx - 1) nByteDiv2 s2))))))
      else Returns seq8)"
  by pat_completeness auto
termination
  by (relation "measure (\<lambda>(idx, invIdx, nByteDiv2, seq8). length seq8 - idx)")
     (auto simp add: set_at_def split: if_splits)

declare ReverseCompInplace_loop.simps [simp del]

definition ReverseCompInplace :: "byte list \<Rightarrow> outcome" where
  "ReverseCompInplace seq8 =
     (let nByte = length seq8
      in if nByte \<le> bytesPerVec then
           (let nByteDiv2 = drop_bit 1 nByte
            in andThen (ReverseCompInplace_loop 0 (int nByte - 1) nByteDiv2 seq8) (\<lambda>seq8.
               if nByte AND 1 = 1 then
                 (case at seq8 (int nByteDiv2) of None \<Rightarrow> Fails IndexOutOfRange seq8
                  | Some c \<Rightarrow>
                 (case at revCompTable (uint c) of None \<Rightarrow> Fails IndexOutOfRange seq8
                  | Some v \<Rightarrow>
                 (case set_at seq8 (int nByteDiv2) v of None \<Rightarrow> Fails IndexOutOfRange seq8
                  | Some s1 \<Rightarrow> Returns s1)))
               else Returns seq8))
         else reverseComp4InplaceSSSE3Asm seq8 (int nByte))"

section \<open>UnpackAndReplaceSeq\<close>

text \<open>
  \<open>tablePtr\<close> has type \<open>*[16]byte\<close>: the table is the list of its 16 entries.  The
  register computation shared by the loop body and the final block of
  \<open>unpackAndReplaceSeqOddSSSE3Asm\<close>, with the table in \<open>X0\<close>, the nibble mask in \<open>X1\<close> and
  the 16 source bytes in \<open>X3\<close>, leaves the 32 result bytes in \<open>(X5, X3)\<close>.
\<close>

definition unpackAndReplaceSeqOddSSSE3Body ::
  "byte list \<Rightarrow> byte list \<Rightarrow> byte list \<Rightarrow> byte list \<times> byte list" where
  "unpackAndReplaceSeqOddSSSE3Body X0 X1 X3 =
     (let X4 = X0;
          X5 = X0;
          X2 = X3;
          X3 = PSRLQ 4 X3;
          X2 = PAND X1 X2;
          X3 = PAND X1 X3;
          X4 = PSHUFB X2 X4;
          X5 = PSHUFB X3 X5;
          X3 = X5;
          X5 = PUNPCKLBW X4 X5;
          X3 = PUNPCKHBW X4 X3
      in (X5, X3))"

function unpackAndReplaceSeqOddSSSE3Loop ::
  "byte list \<Rightarrow> byte list \<Rightarrow> int \<Rightarrow> int \<Rightarrow> int \<Rightarrow> byte list \<Rightarrow> byte list \<Rightarrow> outcome" where
  "unpackAndReplaceSeqOddSSSE3Loop X0 X1 CX DI R8 src dst =
     (case MOVOU_load src DI of None \<Rightarrow> Fails MemoryFault dst | Some X3 \<Rightarrow>
      (case unpackAndReplaceSeqOddSSSE3Body X0 X1 X3 of (X5, X3) \<Rightarrow>
      (case MOVOU_store dst R8 X5 of None \<Rightarrow> Fails MemoryFault dst | Some dst1 \<Rightarrow>
      (case MOVOU_store dst1 (R8 + 16) X3 of None \<Rightarrow> Fails MemoryFault dst1 | Some dst2 \<Rightarrow>
       if CX > DI + 16
       then unpackAndReplaceSeqOddSSSE3Loop X0 X1 CX (DI + 16) (R8 + 32) src dst2
       else Returns dst2))))"
  by pat_completeness auto
termination
  by (relation "measure (\<lambda>(X0, X1, CX, DI, R8, src, dst). nat (CX - DI))") auto

declare unpackAndReplaceSeqOddSSSE3Loop.simps [simp del]

definition unpackAndReplaceSeqOddSSSE3Asm ::
  "byte list \<Rightarrow> byte list \<Rightarrow> byte list \<Rightarrow> int \<Rightarrow> outcome" where
  "unpackAndReplaceSeqOddSSSE3Asm dst src tablePtr nSrcFullByte =
     (let R8 = 0; DI = 0; SI = 0; CX = nSrcFullByte
      in case MOVOU_load tablePtr SI of None \<Rightarrow> Fails MemoryFault dst | Some X0 \<Rightarrow>
        (let X1 = Mask0f0f;
             CX = CX - 16;
             AX = R8 + CX * 2;
             CX = CX + DI
         in andThen (unpackAndReplaceSeqOddSSSE3Loop X0 X1 CX DI R8 src dst) (\<lambda>dst.
            case MOVOU_load src CX of None \<Rightarrow> Fails MemoryFault dst | Some X3 \<Rightarrow>
            (case unpackAndReplaceSeqOddSSSE3Body X0 X1 X3 of (X5, X3) \<Rightarrow>
            (case MOVOU_store dst AX X5 of None \<Rightarrow> Fails MemoryFault dst | Some dst1 \<Rightarrow>
            (case MOVOU_store dst1 (AX + 16) X3 of None \<Rightarrow> Fails MemoryFault dst1
             | Some dst2 \<Rightarrow> Returns dst2))))))"

function UnpackAndReplaceSeq_loop ::
  "nat \<Rightarrow> nat \<Rightarrow> byte list \<Rightarrow> byte list \<Rightarrow> byte list \<Rightarrow> outcome" where
  "UnpackAndReplaceSeq_loop srcPos nSrcFullByte dst src tablePtr =
     (if srcPos < nSrcFullByte then
        (case at src (int srcPos) of None \<Rightarrow> Fails IndexOutOfRange dst | Some srcByte \<Rightarrow>
        (case at tablePtr (uint (drop_bit 4 srcByte)) of
           None \<Rightarrow> Fails IndexOutOfRange dst | Some hi \<Rightarrow>
        (case set_at dst (int (2 * srcPos)) hi of
           None \<Rightarrow> Fails IndexOutOfRange dst | Some dst1 \<Rightarrow>
        (case at tablePtr (uint (srcByte AND 15)) of
           None \<Rightarrow> Fails IndexOutOfRange dst1 | Some lo \<Rightarrow>
        (case set_at dst1 (int (2 * srcPos + 1)) lo of
           None \<Rightarrow> Fails IndexOutOfRange dst1 | Some dst2 \<Rightarrow>
         UnpackAndReplaceSeq_loop (srcPos + 1) nSrcFullByte dst2 src tablePtr)))))
      else Returns dst)"
  by pat_completeness auto
termination
  by (relation "measure (\<lambda>(srcPos, nSrcFullByte, dst, src, tablePtr). nSrcFullByte - srcPos)")
     auto

declare UnpackAndReplaceSeq_loop.simps [simp del]

definition UnpackAndReplaceSeq :: "byte list \<Rightarrow> byte list \<Rightarrow> byte list \<Rightarrow> outcome" where
  "UnpackAndReplaceSeq dst src tablePtr =
     (let dstLen = length dst;
          nSrcFullByte = drop_bit 1 dstLen;
          srcOdd = dstLen AND 1
      in if length src \<noteq> nSrcFullByte + srcOdd
         then Fails (Panic ''UnpackAndReplaceSeq() requires len(src) == (len(dst) + 1) / 2.'') dst
         else andThen
           (if nSrcFullByte < bytesPerVec
            then UnpackAndReplaceSeq_loop 0 nSrcFullByte dst src tablePtr
            else unpackAndReplaceSeqOddSSSE3Asm dst src tablePtr (int nSrcFullByte))
           (\<lambda>dst. if srcOdd = 1 then
              (case at src (int nSrcFullByte) of None \<Rightarrow> Fails IndexOutOfRange dst
               | Some srcByte \<Rightarrow>
              (case at tablePtr (uint (drop_bit 4 srcByte)) of
                 None \<Rightarrow> Fails IndexOutOfRange dst | Some hi \<Rightarrow>
              (case set_at dst (int (2 * nSrcFullByte)) hi of
                 None \<Rightarrow> Fails IndexOutOfRange dst | Some dst1 \<Rightarrow> Returns dst1)))
            else Returns dst))"

section \<open>The 2-bit reverse complement\<close>

text \<open>
  \<open>MOVD nByte, X2\<close> moves the low 32 bits of the argument into the low doubleword of the
  register and clears the rest.
\<close>

definition MOVD :: "int \<Rightarrow> byte list" where
  "MOVD x = map (\<lambda>i. word_of_int (x div 2 ^ (8 * i))) [0..<4] @ replicate 12 0"

text \<open>
  \<open>reverseComp2TinySSSE3Asm\<close> serves \<open>nByte \<le> 16\<close>.  It always reads 16 bytes at \<open>src\<close> and
  writes 16 bytes at \<open>dst\<close>: its buffers are the allocations behind the slices, which the
  caller keeps at least one vector wide, and the first \<open>nByte\<close> bytes are the slices.
  \<open>PXOR X3, X3\<close> clears \<open>X3\<close>.
\<close>

definition reverseComp2TinySSSE3Asm :: "byte list \<Rightarrow> byte list \<Rightarrow> int \<Rightarrow> outcome" where
  "reverseComp2TinySSSE3Asm dst src nByte =
     (let DI = 0; SI = 0;
          X2 = MOVD nByte;
          X0 = Reverse8Minus16;
          X1 = Mask0303;
          X3 = replicate 16 0;
          X2 = PSHUFB X3 X2;
          X2 = PADDB X0 X2
      in case MOVOU_load src SI of None \<Rightarrow> Fails MemoryFault dst | Some X3 \<Rightarrow>
        (let X3 = PSHUFB X2 X3;
             X3 = PXOR X1 X3
         in case MOVOU_store dst DI X3 of None \<Rightarrow> Fails MemoryFault dst
            | Some dst1 \<Rightarrow> Returns dst1))"

function reverseComp2SSSE3Loop ::
  "byte list \<Rightarrow> byte list \<Rightarrow> int \<Rightarrow> int \<Rightarrow> int \<Rightarrow> byte list \<Rightarrow> byte list \<Rightarrow> outcome" where
  "reverseComp2SSSE3Loop X0 X1 CX SI DI src dst =
     (case MOVOU_load src SI of None \<Rightarrow> Fails MemoryFault dst | Some X2 \<Rightarrow>
      (let X2 = PSHUFB X0 X2;
           X2 = PXOR X1 X2
       in case MOVOU_store dst DI X2 of None \<Rightarrow> Fails MemoryFault dst | Some dst1 \<Rightarrow>
          if CX > DI + 16 then reverseComp2SSSE3Loop X0 X1 CX (SI - 16) (DI + 16) src dst1
          else Returns dst1))"
  by pat_completeness auto
termination
  by (relation "measure (\<lambda>(X0, X1, CX, SI, DI, src, dst). nat (CX - DI))") auto

declare reverseComp2SSSE3Loop.simps [simp del]

definition reverseComp2SSSE3Asm :: "byte list \<Rightarrow> byte list \<Rightarrow> int \<Rightarrow> outcome" where
  "reverseComp2SSSE3Asm dst src nByte =
     (let DI = 0; BX = 0; AX = nByte;
          SI = - 16 + BX + AX;
          CX = - 16 + DI + AX;
          X0 = Reverse8;
          X1 = Mask0303
      in andThen (reverseComp2SSSE3Loop X0 X1 CX SI DI src dst) (\<lambda>dst.
         case MOVOU_load src BX of None \<Rightarrow> Fails MemoryFault dst | Some X2 \<Rightarrow>
         (let X2 = PSHUFB X0 X2;
              X2 = PXOR X1 X2
          in case MOVOU_store dst CX X2 of None \<Rightarrow> Fails MemoryFault dst
             | Some dst1 \<Rightarrow> Returns dst1)))"

section \<open>Reference functions\<close>

text \<open>
  What the transforms are to compute, as plain list functions; the correctness lemmas
  relate the outcome of every entry point to them.
\<close>

definition unpack_bytes :: "byte list \<Rightarrow> byte list" where
  "unpack_bytes bs = concat (map (\<lambda>b. [drop_bit 4 b, b AND 15]) bs)"

fun pack_bytes :: "byte list \<Rightarrow> byte list" where
  "pack_bytes (hi # lo # cs) = (push_bit 4 hi OR lo) # pack_bytes cs"
| "pack_bytes cs = []"

definition comp4 :: "byte \<Rightarrow> byte" where
  "comp4 c = revCompTable ! unat c"

definition replace_bytes :: "byte list \<Rightarrow> byte list \<Rightarrow> byte list" where
  "replace_bytes t bs = map (\<lambda>c. t ! unat c) (unpack_bytes bs)"

text \<open>
  The invariant of the in-place transform: the positions in \<open>S\<close> already hold the
  reverse complement of the original buffer, the others still hold the original bytes.
\<close>

definition done_on :: "nat set \<Rightarrow> byte list \<Rightarrow> byte list \<Rightarrow> bool" where
  "done_on S orig cur \<longleftrightarrow>
     length cur = length orig \<and>
     (\<forall>i < length orig. cur ! i = (if i \<in> S then map comp4 (rev orig) ! i else orig ! i))"

section \<open>Lanes, registers and memory\<close>



lemma lane_of_bytes_Cons:
  "lane_of_bytes (b # bs) = ucast b OR push_bit 8 (lane_of_bytes bs)"
  by (simp add: lane_of_bytes_def)

lemma bit_lane_of_bytes_Cons:
  "bit (lane_of_bytes (b # bs)) n \<longleftrightarrow>
     (if n < 8 then bit b n else n < 64 \<and> bit (lane_of_bytes bs) (n - 8))"
proof -
  have "bit (lane_of_bytes (b # bs)) n \<longleftrightarrow>
          bit (ucast b :: 64 word) n \<or> bit (push_bit 8 (lane_of_bytes bs)) n"
    by (simp only: lane_of_bytes_Cons bit_or_iff)
  also have "bit (ucast b :: 64 word) n \<longleftrightarrow> n < 8 \<and> bit b n"
    using bit_imp_le_length [of b n] by (auto simp add: bit_ucast_iff)
  also have "bit (push_bit 8 (lane_of_bytes bs)) n \<longleftrightarrow>
          8 \<le> n \<and> n < 64 \<and> bit (lane_of_bytes bs) (n - 8)"
    by (simp add: bit_push_bit_iff)
  finally show ?thesis by auto
qed

lemma bit_lane_of_bytes:
  "bit (lane_of_bytes bs) n \<longleftrightarrow> n < 64 \<and> n div 8 < length bs \<and> bit (bs ! (n div 8)) (n mod 8)"
proof (induction bs arbitrary: n)
  case Nil
  then show ?case by (simp add: lane_of_bytes_def)
next
  case (Cons b bs)
  show ?case
  proof (cases "n < 8")
    case True
    then show ?thesis
      by (simp add: bit_lane_of_bytes_Cons)
  next
    case False
    then obtain k where n: "n = 8 + k"
      using le_Suc_ex [of 8 n] by auto
    have d: "(8 + k) div 8 = Suc (k div 8)" and m: "(8 + k) mod 8 = k mod 8"
      by simp_all
    show ?thesis
      unfolding n bit_lane_of_bytes_Cons d m
      by (auto simp add: Cons.IH [of k])
  qed
qed


lemma length_bytes_of_lane: "length (bytes_of_lane w) = 8"
  by (simp add: bytes_of_lane_def)

lemma nth_bytes_of_lane: "i < 8 \<Longrightarrow> bytes_of_lane w ! i = ucast (drop_bit (8 * i) w)"
  by (simp add: bytes_of_lane_def)

lemma length_per_lane: "length (per_lane f v) = 16"
  by (simp add: per_lane_def length_bytes_of_lane)

lemma nth_per_lane:
  "i < 16 \<Longrightarrow> per_lane f v ! i =
     (if i < 8 then ucast (drop_bit (8 * i) (f (lane_of_bytes (take 8 v))))
      else ucast (drop_bit (8 * (i - 8)) (f (lane_of_bytes (drop 8 v)))))"
  by (simp add: per_lane_def nth_append length_bytes_of_lane nth_bytes_of_lane)

lemma xmm_Reverse8: "Reverse8 = [15,14,13,12,11,10,9,8,7,6,5,4,3,2,1,0]"
  by code_simp

lemma xmm_Mask0f0f: "Mask0f0f = replicate 16 15"
  by code_simp

lemma xmm_Mask0303: "Mask0303 = replicate 16 3"
  by code_simp

lemma xmm_ReverseComp4Lookup: "ReverseComp4Lookup = [0, 8, 4, 12, 2, 10, 6, 14, 1, 9, 5, 13, 3, 11, 7, 15]"
  by code_simp

lemma xmm_GatherOddLow: "GatherOddLow = [1,3,5,7,9,11,13,15,255,255,255,255,255,255,255,255]"
  by code_simp

lemma xmm_GatherOddHigh: "GatherOddHigh = [255,255,255,255,255,255,255,255,1,3,5,7,9,11,13,15]"
  by code_simp

lemma xmm_Reverse8Minus16: "Reverse8Minus16 = [255,254,253,252,251,250,249,248,247,246,245,244,243,242,241,240]"
  by code_simp



lemma fifteen_mask: "(15 :: byte) = mask 4"
  by (simp add: mask_eq_exp_minus_1)

lemma and_15_take_bit: "(x :: byte) AND 15 = take_bit 4 x"
  by (simp add: fifteen_mask take_bit_eq_mask)

lemma bit_byte_of_lane:
  "bit (ucast (drop_bit k (w :: 64 word)) :: byte) m \<longleftrightarrow> m < 8 \<and> bit w (k + m)"
  by (auto simp add: bit_ucast_iff bit_drop_bit_eq add.commute dest: bit_imp_le_length)

lemma lane_srl4_and:
  assumes "length l = 8" "i < 8"
  shows "ucast (drop_bit (8 * i) (drop_bit 4 (lane_of_bytes l))) AND (15 :: byte) = drop_bit 4 (l ! i)"
proof (rule bit_word_eqI)
  fix m assume "m < LENGTH(8)"
  then have m8: "m < 8" by simp
  show "bit (ucast (drop_bit (8 * i) (drop_bit 4 (lane_of_bytes l))) AND (15 :: byte)) m
        \<longleftrightarrow> bit (drop_bit 4 (l ! i)) m"
  proof (cases "m < 4")
    case True
    have dm: "(8 * i + 4 + m) div 8 = i" "(8 * i + 4 + m) mod 8 = 4 + m"
      using True by (simp_all add: add.assoc)
    have "8 * i + 4 + m < 64" using assms True by simp
    then show ?thesis
      using assms True m8
      by (simp add: and_15_take_bit bit_take_bit_iff bit_byte_of_lane bit_drop_bit_eq
          bit_lane_of_bytes dm)
  next
    case False
    then have "\<not> bit (l ! i) (4 + m)"
      using bit_imp_le_length [of "l ! i" "4 + m"] by auto
    with False show ?thesis
      by (simp add: and_15_take_bit bit_take_bit_iff bit_drop_bit_eq add.commute)
  qed
qed



lemma length_PAND: "length (PAND s d) = min (length d) (length s)"
  by (simp add: PAND_def)

lemma nth_PAND: "i < length d \<Longrightarrow> i < length s \<Longrightarrow> PAND s d ! i = d ! i AND s ! i"
  by (simp add: PAND_def)

lemma length_PSRLQ: "length (PSRLQ k v) = 16"
  by (simp add: PSRLQ_def length_per_lane)

lemma PSRLQ_4_PAND:
  assumes "length v = 16"
  shows "PAND Mask0f0f (PSRLQ 4 v) = map (drop_bit 4) v"
proof (rule nth_equalityI)
  show "length (PAND Mask0f0f (PSRLQ 4 v)) = length (map (drop_bit 4) v)"
    using assms by (simp add: length_PAND length_PSRLQ xmm_Mask0f0f)
next
  fix i assume "i < length (PAND Mask0f0f (PSRLQ 4 v))"
  then have i: "i < 16"
    by (simp add: length_PAND length_PSRLQ)
  show "PAND Mask0f0f (PSRLQ 4 v) ! i = map (drop_bit 4) v ! i"
  proof (cases "i < 8")
    case True
    then show ?thesis
      using assms i lane_srl4_and [of "take 8 v" i]
      by (simp add: nth_PAND length_per_lane xmm_Mask0f0f PSRLQ_def nth_per_lane)
  next
    case False
    then show ?thesis
      using assms i lane_srl4_and [of "drop 8 v" "i - 8"]
      by (simp add: nth_PAND length_per_lane xmm_Mask0f0f PSRLQ_def nth_per_lane)
  qed
qed

lemma PAND_Mask0f0f:
  assumes "length v = 16"
  shows "PAND Mask0f0f v = map (\<lambda>b. b AND 15) v"
  using assms by (intro nth_equalityI) (simp_all add: length_PAND nth_PAND xmm_Mask0f0f)

lemma concat_map2_take_drop:
  "length a = length b \<Longrightarrow>
   concat (map2 f (take k a) (take k b)) @ concat (map2 f (drop k a) (drop k b))
     = concat (map2 f a b)"
proof -
  have "map2 f (take k a) (take k b) @ map2 f (drop k a) (drop k b) = map2 f a b"
    by (metis append_take_drop_id drop_map drop_zip take_map take_zip)
  then show ?thesis
    by (metis concat_append)
qed

lemma map2_map_same: "map2 f (map g xs) (map h xs) = map (\<lambda>x. f (g x) (h x)) xs"
  by (induction xs) simp_all

lemma unpackSeqOddSSE2Body_eq:
  assumes "length v = 16"
  shows "unpackSeqOddSSE2Body Mask0f0f v = (X1, X3) \<Longrightarrow> X1 @ X3 = unpack_bytes v"
        "unpackSeqOddSSE2Body Mask0f0f v = (X1, X3) \<Longrightarrow> length X1 = 16"
proof -
  let ?hi = "map (drop_bit 4) v" and ?lo = "map (\<lambda>b. b AND 15) v"
  have body: "unpackSeqOddSSE2Body Mask0f0f v = (PUNPCKLBW ?lo ?hi, PUNPCKHBW ?lo ?hi)"
    by (simp add: unpackSeqOddSSE2Body_def Let_def PSRLQ_4_PAND [OF assms] PAND_Mask0f0f [OF assms])
  have "PUNPCKLBW ?lo ?hi @ PUNPCKHBW ?lo ?hi = concat (map2 (\<lambda>x y. [x, y]) ?hi ?lo)"
    unfolding PUNPCKLBW_def PUNPCKHBW_def by (rule concat_map2_take_drop) simp
  also have "\<dots> = unpack_bytes v"
    by (simp add: unpack_bytes_def map2_map_same)
  finally show "unpackSeqOddSSE2Body Mask0f0f v = (X1, X3) \<Longrightarrow> X1 @ X3 = unpack_bytes v"
    by (simp add: body)
  have "length (PUNPCKLBW ?lo ?hi) = 16"
    using assms by (simp add: PUNPCKLBW_def length_concat o_def sum_list_triv case_prod_unfold)
  then show "unpackSeqOddSSE2Body Mask0f0f v = (X1, X3) \<Longrightarrow> length X1 = 16"
    by (auto simp add: body)
qed

section \<open>Correctness of UnpackSeq\<close>



lemma MOVOU_load_nat:
  "p + 16 \<le> length mem \<Longrightarrow> MOVOU_load mem (int p) = Some (take 16 (drop p mem))"
  by (simp add: MOVOU_load_def)

lemma MOVOU_store_nat:
  "p + 16 \<le> length mem \<Longrightarrow>
   MOVOU_store mem (int p) v = Some (take p mem @ v @ drop (p + 16) mem)"
  by (simp add: MOVOU_store_def)

lemma two_stores:
  assumes "length a = 16" "p + 32 \<le> length mem"
  shows "take (p + 16) (take p mem @ a @ drop (p + 16) mem) @ b
           @ drop (p + 16 + 16) (take p mem @ a @ drop (p + 16) mem)
         = take p mem @ (a @ b) @ drop (p + 32) mem"
  using assms by (simp add: min_def add.commute)

text \<open>Writing a window of the target \<open>U\<close> into a buffer that already agrees with \<open>U\<close> below \<open>a\<close>.\<close>

lemma splice_window:
  assumes "length U = length D" "cur = take a U @ drop a D"
    and "p \<le> a" "a \<le> p + k" "p + k \<le> length U"
  shows "take p cur @ take k (drop p U) @ drop (p + k) cur = take (p + k) U @ drop (p + k) D"
proof -
  have 1: "take p cur = take p U"
    using assms by (simp add: min_def)
  have 2: "drop (p + k) cur = drop (p + k) D"
    using assms by (simp add: min_def)
  have 3: "take p U @ take k (drop p U) = take (p + k) U"
    by (simp add: take_add)
  show ?thesis
    using 3 by (simp add: 1 2)
qed

lemma unpack_bytes_Cons: "unpack_bytes (b # bs) = drop_bit 4 b # (b AND 15) # unpack_bytes bs"
  by (simp add: unpack_bytes_def)

lemma length_unpack_bytes: "length (unpack_bytes bs) = 2 * length bs"
  by (induction bs) (simp_all add: unpack_bytes_Cons, simp add: unpack_bytes_def)

lemma unpack_bytes_take: "unpack_bytes (take k bs) = take (2 * k) (unpack_bytes bs)"
proof (induction bs arbitrary: k)
  case Nil
  then show ?case by (simp add: unpack_bytes_def)
next
  case (Cons b bs)
  then show ?case by (cases k) (simp_all add: unpack_bytes_Cons, simp add: unpack_bytes_def)
qed

lemma unpack_bytes_drop: "unpack_bytes (drop k bs) = drop (2 * k) (unpack_bytes bs)"
proof (induction bs arbitrary: k)
  case Nil
  then show ?case by (simp add: unpack_bytes_def)
next
  case (Cons b bs)
  then show ?case by (cases k) (simp_all add: unpack_bytes_Cons)
qed

lemma nth_unpack_bytes:
  "p < 2 * length bs \<Longrightarrow>
   unpack_bytes bs ! p = (if even p then drop_bit 4 (bs ! (p div 2)) else bs ! (p div 2) AND 15)"
proof (induction bs arbitrary: p)
  case Nil
  then show ?case by simp
next
  case (Cons b bs)
  show ?case
  proof (cases p)
    case 0
    then show ?thesis by (simp add: unpack_bytes_Cons)
  next
    case (Suc q)
    show ?thesis
    proof (cases q)
      case 0
      with Suc show ?thesis by (simp add: unpack_bytes_Cons)
    next
      case (Suc r)
      with \<open>p = Suc q\<close> Cons.prems have "r < 2 * length bs" by simp
      from Cons.IH [OF this] Suc \<open>p = Suc q\<close> show ?thesis
        by (simp add: unpack_bytes_Cons)
    qed
  qed
qed



lemma unpack_window:
  assumes U: "take (2 * n) U = unpack_bytes (take n src)" and "d + 16 \<le> n"
  shows "unpack_bytes (take 16 (drop d src)) = take 32 (drop (2 * d) U)"
proof -
  have "take 32 (drop (2 * d) U) = take 32 (drop (2 * d) (take (2 * n) U))"
    using assms(2) by (simp add: drop_take min_def)
  also have "\<dots> = unpack_bytes (take 16 (drop d (take n src)))"
    by (simp add: U unpack_bytes_take unpack_bytes_drop)
  also have "take 16 (drop d (take n src)) = take 16 (drop d src)"
    using assms(2) by (simp add: drop_take min_def)
  finally show ?thesis by simp
qed

lemma unpackSeqOddSSE2_step:
  assumes len: "length U = length D" "n \<le> length src" "2 * n \<le> length U"
    and U: "take (2 * n) U = unpack_bytes (take n src)"
    and cur: "cur = take a U @ drop a D" and a: "2 * d \<le> a" "a \<le> 2 * d + 32"
    and d: "d + 16 \<le> n"
  shows "\<exists>X1 X3. MOVOU_load src (int d) = Some (take 16 (drop d src))
     \<and> unpackSeqOddSSE2Body Mask0f0f (take 16 (drop d src)) = (X1, X3)
     \<and> MOVOU_store cur (2 * int d) X1 = Some (take (2 * d) cur @ X1 @ drop (2 * d + 16) cur)
     \<and> MOVOU_store (take (2 * d) cur @ X1 @ drop (2 * d + 16) cur) (2 * int d + 16) X3
         = Some (take (2 * (d + 16)) U @ drop (2 * (d + 16)) D)"
proof -
  let ?v = "take 16 (drop d src)"
  obtain X1 X3 where body: "unpackSeqOddSSE2Body Mask0f0f ?v = (X1, X3)"
    by (cases "unpackSeqOddSSE2Body Mask0f0f ?v")
  have lv: "length ?v = 16" using len d by simp
  have X: "X1 @ X3 = unpack_bytes ?v" "length X1 = 16"
    using unpackSeqOddSSE2Body_eq [OF lv body] by simp_all
  have lcur: "length cur = length U"
    using len d a by (simp add: cur)
  have ld: "MOVOU_load src (int d) = Some ?v"
    using len d by (simp add: MOVOU_load_nat)
  let ?c1 = "take (2 * d) cur @ X1 @ drop (2 * d + 16) cur"
  have s1: "MOVOU_store cur (2 * int d) X1 = Some ?c1"
    using MOVOU_store_nat [of "2 * d" cur X1] len d lcur by simp
  have lc1: "length ?c1 = length U"
    using len d lcur X by simp
  have "MOVOU_store ?c1 (2 * int d + 16) X3
      = Some (take (2 * d + 16) ?c1 @ X3 @ drop (2 * d + 16 + 16) ?c1)"
    using MOVOU_store_nat [of "2 * d + 16" ?c1 X3] len d lc1 by simp
  also have "take (2 * d + 16) ?c1 @ X3 @ drop (2 * d + 16 + 16) ?c1
      = take (2 * d) cur @ (X1 @ X3) @ drop (2 * d + 32) cur"
    using two_stores [of X1 "2 * d" cur X3] X len d lcur by simp
  also have "\<dots> = take (2 * d) cur @ take 32 (drop (2 * d) U) @ drop (2 * d + 32) cur"
    by (simp only: X unpack_window [OF U d])
  also have "\<dots> = take (2 * d + 32) U @ drop (2 * d + 32) D"
    using splice_window [OF len(1) cur, of "2 * d" 32] len d a by simp
  finally show ?thesis
    using ld body s1 by (simp add: algebra_simps)
qed

lemma unpackSeqOddSSE2Loop_correct:
  assumes len: "length U = length D" "n \<le> length src" "2 * n \<le> length U"
    and U: "take (2 * n) U = unpack_bytes (take n src)"
    and cur: "cur = take (2 * d) U @ drop (2 * d) D" and d: "d + 16 \<le> n"
  shows "\<exists>d'. unpackSeqOddSSE2Loop Mask0f0f (int n - 16) (int d) (2 * int d) src cur
            = Returns (take (2 * d') U @ drop (2 * d') D) \<and> n \<le> d' + 16 \<and> d' \<le> n"
  using cur d
proof (induction "n - d" arbitrary: d cur rule: less_induct)
  case less
  have "2 * d \<le> 2 * d" "2 * d \<le> 2 * d + 32" by simp_all
  from unpackSeqOddSSE2_step [OF len U less.prems(1) this less.prems(2)]
  obtain X1 X3 where step:
    "MOVOU_load src (int d) = Some (take 16 (drop d src))"
    "unpackSeqOddSSE2Body Mask0f0f (take 16 (drop d src)) = (X1, X3)"
    "MOVOU_store cur (2 * int d) X1 = Some (take (2 * d) cur @ X1 @ drop (2 * d + 16) cur)"
    "MOVOU_store (take (2 * d) cur @ X1 @ drop (2 * d + 16) cur) (2 * int d + 16) X3
         = Some (take (2 * (d + 16)) U @ drop (2 * (d + 16)) D)"
    by blast
  let ?next = "take (2 * (d + 16)) U @ drop (2 * (d + 16)) D"
  show ?case
  proof (cases "int n - 16 > int d + 16")
    case True
    then have d': "d + 16 + 16 \<le> n" by simp
    then have "n - (d + 16) < n - d" by simp
    from less.hyps [OF this refl d']
    obtain d' where rec: "unpackSeqOddSSE2Loop Mask0f0f (int n - 16) (int (d + 16)) (2 * int (d + 16)) src ?next
            = Returns (take (2 * d') U @ drop (2 * d') D)" "n \<le> d' + 16" "d' \<le> n"
      by blast
    have eqs: "int (d + 16) = int d + 16" "2 * int (d + 16) = 2 * int d + 32" by simp_all
    have "unpackSeqOddSSE2Loop Mask0f0f (int n - 16) (int d) (2 * int d) src cur
        = unpackSeqOddSSE2Loop Mask0f0f (int n - 16) (int d + 16) (2 * int d + 32) src ?next"
      using True by (subst unpackSeqOddSSE2Loop.simps) (simp add: step)
    with rec show ?thesis by (simp add: algebra_simps) blast
  next
    case False
    have "unpackSeqOddSSE2Loop Mask0f0f (int n - 16) (int d) (2 * int d) src cur = Returns ?next"
      using False by (subst unpackSeqOddSSE2Loop.simps) (simp add: step)
    moreover have "n \<le> d + 16 + 16" "d + 16 \<le> n" using False less.prems by simp_all
    ultimately show ?thesis by blast
  qed
qed


lemma unpackSeqOddSSE2Asm_correct:
  assumes "16 \<le> n" "n \<le> length src" "2 * n \<le> length dst"
  shows "unpackSeqOddSSE2Asm dst src (int n) = Returns (unpack_bytes (take n src) @ drop (2 * n) dst)"
proof -
  let ?U = "unpack_bytes (take n src) @ drop (2 * n) dst"
  have len: "length ?U = length dst" "n \<le> length src" "2 * n \<le> length ?U"
    using assms by (simp_all add: length_unpack_bytes min_def)
  have U: "take (2 * n) ?U = unpack_bytes (take n src)"
    using assms by (simp add: length_unpack_bytes min_def)
  have "dst = take (2 * 0) ?U @ drop (2 * 0) dst" by simp
  from unpackSeqOddSSE2Loop_correct [OF len U this] assms
  obtain d' where loop: "unpackSeqOddSSE2Loop Mask0f0f (int n - 16) 0 0 src dst
            = Returns (take (2 * d') ?U @ drop (2 * d') dst)" and d': "n \<le> d' + 16" "d' \<le> n"
    by auto
  have n16: "int n - 16 = int (n - 16)" using assms by simp
  have "\<exists>X1 X3. MOVOU_load src (int (n - 16)) = Some (take 16 (drop (n - 16) src))
     \<and> unpackSeqOddSSE2Body Mask0f0f (take 16 (drop (n - 16) src)) = (X1, X3)
     \<and> MOVOU_store (take (2 * d') ?U @ drop (2 * d') dst) (2 * int (n - 16)) X1
          = Some (take (2 * (n - 16)) (take (2 * d') ?U @ drop (2 * d') dst) @ X1
               @ drop (2 * (n - 16) + 16) (take (2 * d') ?U @ drop (2 * d') dst))
     \<and> MOVOU_store (take (2 * (n - 16)) (take (2 * d') ?U @ drop (2 * d') dst) @ X1
               @ drop (2 * (n - 16) + 16) (take (2 * d') ?U @ drop (2 * d') dst))
          (2 * int (n - 16) + 16) X3
         = Some (take (2 * (n - 16 + 16)) ?U @ drop (2 * (n - 16 + 16)) dst)"
    using assms d' by (intro unpackSeqOddSSE2_step [OF len U refl]) simp_all
  then obtain X1 X3 where fin:
    "MOVOU_load src (int n - 16) = Some (take 16 (drop (n - 16) src))"
    "unpackSeqOddSSE2Body Mask0f0f (take 16 (drop (n - 16) src)) = (X1, X3)"
    "MOVOU_store (take (2 * d') ?U @ drop (2 * d') dst) ((int n - 16) * 2) X1
          = Some (take (2 * (n - 16)) (take (2 * d') ?U @ drop (2 * d') dst) @ X1
               @ drop (2 * (n - 16) + 16) (take (2 * d') ?U @ drop (2 * d') dst))"
    "MOVOU_store (take (2 * (n - 16)) (take (2 * d') ?U @ drop (2 * d') dst) @ X1
               @ drop (2 * (n - 16) + 16) (take (2 * d') ?U @ drop (2 * d') dst))
          ((int n - 16) * 2 + 16) X3
         = Some (take (2 * (n - 16 + 16)) ?U @ drop (2 * (n - 16 + 16)) dst)"
    unfolding n16 by (auto simp add: mult.commute)
  have "take (2 * (n - 16 + 16)) ?U @ drop (2 * (n - 16 + 16)) dst = ?U"
    using assms by (simp add: length_unpack_bytes)
  then show ?thesis
    using loop fin
    by (simp add: unpackSeqOddSSE2Asm_def Let_def andThen_def)
qed



lemma at_nat: "i < length xs \<Longrightarrow> at xs (int i) = Some (xs ! i)"
  by (simp add: at_def)

lemma set_at_nat: "i < length xs \<Longrightarrow> set_at xs (int i) v = Some (xs[i := v])"
  by (simp add: set_at_def)

lemma update_pair:
  "Suc i < length xs \<Longrightarrow> xs[i := a, Suc i := b] = take i xs @ [a, b] @ drop (i + 2) xs"
  by (simp add: upd_conv_take_nth_drop take_Suc_conv_app_nth nth_append min_def)

lemma unpack_single:
  assumes U: "take (2 * n) U = unpack_bytes (take n src)" and "k < n" "n \<le> length src"
  shows "[drop_bit 4 (src ! k), src ! k AND 15] = take 2 (drop (2 * k) U)"
proof -
  have "take 2 (drop (2 * k) U) = take 2 (drop (2 * k) (take (2 * n) U))"
    using assms(2) by (simp add: drop_take min_def)
  also have "\<dots> = unpack_bytes (take 1 (drop k (take n src)))"
    by (simp add: U unpack_bytes_take unpack_bytes_drop)
  also have "take 1 (drop k (take n src)) = [src ! k]"
    using assms(2,3) by (simp add: take_Suc_conv_app_nth drop_take min_def)
  finally show ?thesis by (simp add: unpack_bytes_def)
qed

lemma UnpackSeq_loop_correct:
  assumes len: "length U = length D" "n \<le> length src" "2 * n \<le> length U"
    and U: "take (2 * n) U = unpack_bytes (take n src)"
    and cur: "cur = take (2 * k) U @ drop (2 * k) D" and k: "k \<le> n"
  shows "UnpackSeq_loop k n cur src = Returns (take (2 * n) U @ drop (2 * n) D)"
  using cur k
proof (induction "n - k" arbitrary: k cur rule: less_induct)
  case less
  show ?case
  proof (cases "k < n")
    case False
    with less.prems have "k = n" by simp
    then show ?thesis
      using less.prems by (subst UnpackSeq_loop.simps) simp
  next
    case True
    have lcur: "length cur = length U"
      using len less.prems True by simp
    let ?a = "drop_bit 4 (src ! k)" and ?b = "src ! k AND 15"
    have upd: "cur[2 * k := ?a, Suc (2 * k) := ?b] = take (2 * (k + 1)) U @ drop (2 * (k + 1)) D"
    proof -
      have "cur[2 * k := ?a, Suc (2 * k) := ?b] = take (2 * k) cur @ [?a, ?b] @ drop (2 * k + 2) cur"
        using True len lcur by (intro update_pair) simp
      also have "\<dots> = take (2 * k) cur @ take 2 (drop (2 * k) U) @ drop (2 * k + 2) cur"
        using unpack_single [OF U True len(2)] by simp
      also have "\<dots> = take (2 * k + 2) U @ drop (2 * k + 2) D"
        using splice_window [OF len(1) less.prems(1), of "2 * k" 2] True len by simp
      finally show ?thesis by simp
    qed
    have "n - (k + 1) < n - k" "k + 1 \<le> n" using True by simp_all
    from less.hyps [OF this(1) upd this(2)]
    have "UnpackSeq_loop (k + 1) n (cur[2 * k := ?a, Suc (2 * k) := ?b]) src
            = Returns (take (2 * n) U @ drop (2 * n) D)" .
    moreover have "at src (int k) = Some (src ! k)"
      using True len by (simp add: at_nat)
    moreover have "set_at cur (int (2 * k)) ?a = Some (cur[2 * k := ?a])"
      using True len lcur by (intro set_at_nat) simp
    moreover have "set_at (cur[2 * k := ?a]) (int (2 * k + 1)) ?b = Some (cur[2 * k := ?a, Suc (2 * k) := ?b])"
      using True len lcur set_at_nat [of "2 * k + 1" "cur[2 * k := ?a]" ?b] by simp
    ultimately show ?thesis
      using True by (subst UnpackSeq_loop.simps) simp
  qed
qed

lemma UnpackSeq_main:
  assumes "length src = (length dst + 1) div 2"
  shows "UnpackSeq dst src = Returns (map (\<lambda>p. if even p then drop_bit 4 (src ! (p div 2))
                                       else src ! (p div 2) AND 15) [0..<length dst])"
proof -
  define n where "n = length dst div 2"
  let ?U = "unpack_bytes (take n src) @ drop (2 * n) dst"
  let ?f = "\<lambda>p. if even p then drop_bit 4 (src ! (p div 2)) else src ! (p div 2) AND 15"
  have n: "2 * n \<le> length dst" "n \<le> length src" "length src = n + length dst mod 2"
    using assms by (simp_all add: n_def) presburger+
  have len: "length ?U = length dst" "n \<le> length src" "2 * n \<le> length ?U"
    using n by (simp_all add: length_unpack_bytes min_def)
  have U: "take (2 * n) ?U = unpack_bytes (take n src)"
    using n by (simp add: length_unpack_bytes min_def)
  have "take (2 * n) ?U @ drop (2 * n) dst = ?U"
    using n by (simp add: length_unpack_bytes min_def)
  then have scalar: "UnpackSeq_loop 0 n dst src = Returns ?U"
    using UnpackSeq_loop_correct [OF len U, of dst 0] by simp
  have asm: "16 \<le> n \<Longrightarrow> unpackSeqOddSSE2Asm dst src (int n) = Returns ?U"
    using n by (intro unpackSeqOddSSE2Asm_correct) simp_all
  have first: "(if n < bytesPerVec then UnpackSeq_loop 0 n dst src
            else unpackSeqOddSSE2Asm dst src (int n)) = Returns ?U"
    using scalar asm by (simp add: bytesPerVec_def)
  have Unth: "p < 2 * n \<Longrightarrow> ?U ! p = ?f p" for p
    using n nth_unpack_bytes [of p "take n src"] by (simp add: nth_append length_unpack_bytes min_def)
  show ?thesis
  proof (cases "even (length dst)")
    case True
    then have l: "length dst = 2 * n" by (auto simp add: n_def)
    have "?U = map ?f [0..<length dst]"
      using Unth len by (intro nth_equalityI) (simp_all add: l)
    then show ?thesis
      using True n first
      by (simp add: UnpackSeq_def Let_def drop_bit_eq_div and_one_eq n_def [symmetric] andThen_def
          mod_2_eq_odd split del: if_split cong: if_cong)
  next
    case False
    then have l: "length dst = 2 * n + 1" by (auto simp add: n_def elim: oddE)
    have "?U[2 * n := drop_bit 4 (src ! n)] = map ?f [0..<length dst]"
    proof (rule nth_equalityI)
      show "length (?U[2 * n := drop_bit 4 (src ! n)]) = length (map ?f [0..<length dst])"
        using len by simp
    next
      fix p assume "p < length (?U[2 * n := drop_bit 4 (src ! n)])"
      then have p: "p < 2 * n + 1" using len l by simp
      show "?U[2 * n := drop_bit 4 (src ! n)] ! p = map ?f [0..<length dst] ! p"
      proof (cases "p = 2 * n")
        case True
        then show ?thesis using len l by (simp del: length_append upt_Suc)
      next
        case False
        with p have "p < 2 * n" by simp
        then show ?thesis using Unth [of p] l by (simp del: length_append nth_append upt_Suc)
      qed
    qed
    moreover have "at src (int n) = Some (src ! n)"
      using n False by (intro at_nat) (simp add: mod_2_eq_odd)
    moreover have "set_at ?U (int (2 * n)) (drop_bit 4 (src ! n)) = Some (?U[2 * n := drop_bit 4 (src ! n)])"
      using len l by (intro set_at_nat) simp
    ultimately show ?thesis
      using False n first
      by (simp add: UnpackSeq_def Let_def drop_bit_eq_div and_one_eq n_def [symmetric] andThen_def
          mod_2_eq_odd del: length_append split del: if_split cong: if_cong)
  qed
qed

section \<open>Correctness of UnpackAndReplaceSeq\<close>




lemma code_take_bit: "(c :: byte) < 16 \<Longrightarrow> take_bit 4 c = c"
proof -
  assume "c < 16"
  then have "c < 2 ^ 4" by simp
  then have "c AND mask 4 = c" by (rule less_mask_eq)
  then show ?thesis by (simp add: take_bit_eq_mask)
qed

lemma take_bit_code: "take_bit 4 (c :: byte) < 16"
proof -
  have "unat (take_bit 4 c) = take_bit 4 (unat c)"
    by (simp only: unsigned_take_bit_eq)
  also have "\<dots> < 2 ^ 4"
    by (rule take_bit_nat_less_exp)
  finally show ?thesis
    by (simp add: word_less_nat_alt)
qed

lemma nibble_less_16: "(b :: byte) AND 15 < 16" "drop_bit 4 (b :: byte) < 16"
proof -
  show "b AND 15 < 16"
    by (simp only: and_15_take_bit take_bit_code)
  have "unat (drop_bit 4 b) = drop_bit 4 (unat b)"
    by (rule unat_drop_bit_eq)
  also have "\<dots> = unat b div 2 ^ 4"
    by (rule drop_bit_eq_div)
  finally have "unat (drop_bit 4 b) = unat b div 16"
    by simp
  moreover have "unat b < 256" using unsigned_less [of b, where ?'a = nat] by simp
  ultimately have "unat (drop_bit 4 b) < 16"
    by simp
  then show "drop_bit 4 b < 16"
    by (simp only: word_less_nat_alt) simp
qed

lemma code_no_bit7: "(c :: byte) < 16 \<Longrightarrow> \<not> bit c 7"
  using bit_take_bit_iff [of 4 c 7] by (simp add: code_take_bit)

lemma code_and_15: "(c :: byte) < 16 \<Longrightarrow> c AND 15 = c"
  by (simp add: and_15_take_bit code_take_bit)

lemma unat_code: "(c :: byte) < 16 \<Longrightarrow> unat c < 16"
  by (simp add: word_less_nat_alt)

lemma PSHUFB_codes:
  assumes "\<forall>c \<in> set s. c < 16"
  shows "PSHUFB s d = map (\<lambda>c. d ! unat c) s"
  using assms by (simp add: PSHUFB_def code_no_bit7 code_and_15)



lemma store_window:
  assumes "length U = length D" "cur = take a U @ drop a D"
    and "p \<le> a" "a \<le> p + 16" "p + 16 \<le> length U" "v = take 16 (drop p U)"
  shows "MOVOU_store cur (int p) v = Some (take (p + 16) U @ drop (p + 16) D)"
proof -
  have "length cur = length U"
    using assms by simp
  then have "MOVOU_store cur (int p) v = Some (take p cur @ v @ drop (p + 16) cur)"
    using assms by (simp add: MOVOU_store_nat)
  then show ?thesis
    using splice_window [OF assms(1,2,3,4,5)] assms(6) by simp
qed

lemma store_pair_window:
  assumes "length U = length D" "cur = take a U @ drop a D"
    and "p \<le> a" "a \<le> p + 32" "p + 32 \<le> length U"
    and "length A = 16" "A @ B = take 32 (drop p U)"
  shows "\<exists>c1. MOVOU_store cur (int p) A = Some c1
            \<and> MOVOU_store c1 (int p + 16) B = Some (take (p + 32) U @ drop (p + 32) D)"
proof -
  have lcur: "length cur = length U"
    using assms by simp
  let ?c1 = "take p cur @ A @ drop (p + 16) cur"
  have s1: "MOVOU_store cur (int p) A = Some ?c1"
    using assms lcur by (simp add: MOVOU_store_nat)
  have lc1: "length ?c1 = length U"
    using assms lcur by simp
  have "MOVOU_store ?c1 (int p + 16) B
      = Some (take (p + 16) ?c1 @ B @ drop (p + 16 + 16) ?c1)"
    using MOVOU_store_nat [of "p + 16" ?c1 B] assms lc1 by simp
  also have "take (p + 16) ?c1 @ B @ drop (p + 16 + 16) ?c1
      = take p cur @ (A @ B) @ drop (p + 32) cur"
    using two_stores [of A p cur B] assms lcur by simp
  also have "\<dots> = take (p + 32) U @ drop (p + 32) D"
    using splice_window [OF assms(1,2,3,4,5)] assms(7) by simp
  finally show ?thesis
    using s1 by simp
qed

lemma replace_bytes_take: "replace_bytes t (take k bs) = take (2 * k) (replace_bytes t bs)"
  by (simp add: replace_bytes_def unpack_bytes_take take_map)

lemma replace_bytes_drop: "replace_bytes t (drop k bs) = drop (2 * k) (replace_bytes t bs)"
  by (simp add: replace_bytes_def unpack_bytes_drop drop_map)

lemma length_replace_bytes: "length (replace_bytes t bs) = 2 * length bs"
  by (simp add: replace_bytes_def length_unpack_bytes)

lemma nth_replace_bytes:
  "p < 2 * length bs \<Longrightarrow>
   replace_bytes t bs ! p = t ! unat (if even p then drop_bit 4 (bs ! (p div 2)) else bs ! (p div 2) AND 15)"
  by (simp add: replace_bytes_def length_unpack_bytes nth_unpack_bytes)

lemma replace_window:
  assumes U: "take (2 * n) U = replace_bytes t (take n src)" and "d + k \<le> n"
  shows "replace_bytes t (take k (drop d src)) = take (2 * k) (drop (2 * d) U)"
proof -
  have "take (2 * k) (drop (2 * d) U) = take (2 * k) (drop (2 * d) (take (2 * n) U))"
    using assms(2) by (simp add: drop_take min_def)
  also have "\<dots> = replace_bytes t (take k (drop d (take n src)))"
    by (simp add: U replace_bytes_take replace_bytes_drop)
  also have "take k (drop d (take n src)) = take k (drop d src)"
    using assms(2) by (simp add: drop_take min_def)
  finally show ?thesis by simp
qed

lemma length_PUNPCKLBW: "length s = 16 \<Longrightarrow> length d = 16 \<Longrightarrow> length (PUNPCKLBW s d) = 16"
  by (simp add: PUNPCKLBW_def length_concat o_def sum_list_triv case_prod_unfold)

lemma PUNPCK_append:
  "length s = length d \<Longrightarrow> PUNPCKLBW s d @ PUNPCKHBW s d = concat (map2 (\<lambda>x y. [x, y]) d s)"
  unfolding PUNPCKLBW_def PUNPCKHBW_def by (rule concat_map2_take_drop) simp

lemma unpackAndReplaceSeqOddSSSE3Body_eq:
  assumes "length v = 16" "length t = 16"
    and "unpackAndReplaceSeqOddSSSE3Body t Mask0f0f v = (X5, X3)"
  shows "X5 @ X3 = replace_bytes t v" "length X5 = 16"
proof -
  let ?hi = "map (\<lambda>b. t ! unat (drop_bit 4 b)) v" and ?lo = "map (\<lambda>b. t ! unat (b AND 15)) v"
  have hi: "PSHUFB (map (drop_bit 4) v) t = ?hi"
    by (subst PSHUFB_codes) (simp_all add: nibble_less_16 o_def)
  have lo: "PSHUFB (map (\<lambda>b. b AND 15) v) t = ?lo"
    by (subst PSHUFB_codes) (simp_all add: nibble_less_16 o_def)
  have body: "unpackAndReplaceSeqOddSSSE3Body t Mask0f0f v = (PUNPCKLBW ?lo ?hi, PUNPCKHBW ?lo ?hi)"
    by (simp add: unpackAndReplaceSeqOddSSSE3Body_def Let_def PSRLQ_4_PAND [OF assms(1)]
        PAND_Mask0f0f [OF assms(1)] hi lo)
  have "PUNPCKLBW ?lo ?hi @ PUNPCKHBW ?lo ?hi = concat (map2 (\<lambda>x y. [x, y]) ?hi ?lo)"
    by (rule PUNPCK_append) simp
  also have "\<dots> = replace_bytes t v"
    by (simp add: replace_bytes_def unpack_bytes_def map2_map_same map_concat o_def)
  finally show "X5 @ X3 = replace_bytes t v"
    using assms(3) by (simp add: body)
  show "length X5 = 16"
    using assms(1,3) by (auto simp add: body length_PUNPCKLBW)
qed



lemma unpackAndReplaceSeqOddSSSE3_step:
  assumes len: "length U = length D" "n \<le> length src" "2 * n \<le> length U" "length t = 16"
    and U: "take (2 * n) U = replace_bytes t (take n src)"
    and cur: "cur = take a U @ drop a D" and a: "2 * d \<le> a" "a \<le> 2 * d + 32"
    and d: "d + 16 \<le> n"
  shows "\<exists>X5 X3 c1. MOVOU_load src (int d) = Some (take 16 (drop d src))
     \<and> unpackAndReplaceSeqOddSSSE3Body t Mask0f0f (take 16 (drop d src)) = (X5, X3)
     \<and> MOVOU_store cur (2 * int d) X5 = Some c1
     \<and> MOVOU_store c1 (2 * int d + 16) X3 = Some (take (2 * (d + 16)) U @ drop (2 * (d + 16)) D)"
proof -
  let ?v = "take 16 (drop d src)"
  obtain X5 X3 where body: "unpackAndReplaceSeqOddSSSE3Body t Mask0f0f ?v = (X5, X3)"
    by (cases "unpackAndReplaceSeqOddSSSE3Body t Mask0f0f ?v")
  have lv: "length ?v = 16" using len d by simp
  have X: "X5 @ X3 = replace_bytes t ?v" "length X5 = 16"
    using unpackAndReplaceSeqOddSSSE3Body_eq [OF lv len(4) body] by simp_all
  have ld: "MOVOU_load src (int d) = Some ?v"
    using len d by (simp add: MOVOU_load_nat)
  have "X5 @ X3 = take 32 (drop (2 * d) U)"
    using replace_window [OF U d] X by simp
  from store_pair_window [OF len(1) cur a(1) a(2) _ X(2) this]
  obtain c1 where "MOVOU_store cur (int (2 * d)) X5 = Some c1"
    "MOVOU_store c1 (int (2 * d) + 16) X3 = Some (take (2 * d + 32) U @ drop (2 * d + 32) D)"
    using len d by auto
  then show ?thesis
    using ld body by (simp add: algebra_simps)
qed

lemma unpackAndReplaceSeqOddSSSE3Loop_correct:
  assumes len: "length U = length D" "n \<le> length src" "2 * n \<le> length U" "length t = 16"
    and U: "take (2 * n) U = replace_bytes t (take n src)"
    and cur: "cur = take (2 * d) U @ drop (2 * d) D" and d: "d + 16 \<le> n"
  shows "\<exists>d'. unpackAndReplaceSeqOddSSSE3Loop t Mask0f0f (int n - 16) (int d) (2 * int d) src cur
            = Returns (take (2 * d') U @ drop (2 * d') D) \<and> n \<le> d' + 16 \<and> d' \<le> n"
  using cur d
proof (induction "n - d" arbitrary: d cur rule: less_induct)
  case less
  have "2 * d \<le> 2 * d" "2 * d \<le> 2 * d + 32" by simp_all
  from unpackAndReplaceSeqOddSSSE3_step [OF len U less.prems(1) this less.prems(2)]
  obtain X5 X3 c1 where step:
    "MOVOU_load src (int d) = Some (take 16 (drop d src))"
    "unpackAndReplaceSeqOddSSSE3Body t Mask0f0f (take 16 (drop d src)) = (X5, X3)"
    "MOVOU_store cur (2 * int d) X5 = Some c1"
    "MOVOU_store c1 (2 * int d + 16) X3 = Some (take (2 * (d + 16)) U @ drop (2 * (d + 16)) D)"
    by blast
  let ?next = "take (2 * (d + 16)) U @ drop (2 * (d + 16)) D"
  show ?case
  proof (cases "int n - 16 > int d + 16")
    case True
    then have d': "d + 16 + 16 \<le> n" by simp
    then have "n - (d + 16) < n - d" by simp
    from less.hyps [OF this refl d']
    obtain d' where rec: "unpackAndReplaceSeqOddSSSE3Loop t Mask0f0f (int n - 16) (int (d + 16))
              (2 * int (d + 16)) src ?next
            = Returns (take (2 * d') U @ drop (2 * d') D)" "n \<le> d' + 16" "d' \<le> n"
      by blast
    have "unpackAndReplaceSeqOddSSSE3Loop t Mask0f0f (int n - 16) (int d) (2 * int d) src cur
        = unpackAndReplaceSeqOddSSSE3Loop t Mask0f0f (int n - 16) (int d + 16) (2 * int d + 32) src ?next"
      using True by (subst unpackAndReplaceSeqOddSSSE3Loop.simps) (simp add: step)
    moreover have e: "int (d + 16) = int d + 16" "2 * (int d + 16) = 2 * int d + 32"
      by simp_all
    note rec(1) [unfolded e]
    ultimately have "unpackAndReplaceSeqOddSSSE3Loop t Mask0f0f (int n - 16) (int d) (2 * int d) src cur
        = Returns (take (2 * d') U @ drop (2 * d') D)"
      by (rule trans)
    with rec(2,3) show ?thesis by blast
  next
    case False
    have "unpackAndReplaceSeqOddSSSE3Loop t Mask0f0f (int n - 16) (int d) (2 * int d) src cur
            = Returns ?next"
      using False by (subst unpackAndReplaceSeqOddSSSE3Loop.simps) (simp add: step)
    moreover have "n \<le> d + 16 + 16" "d + 16 \<le> n" using False less.prems by simp_all
    ultimately show ?thesis by blast
  qed
qed



lemma unpackAndReplaceSeqOddSSSE3Asm_correct:
  assumes "16 \<le> n" "n \<le> length src" "2 * n \<le> length dst" "length t = 16"
  shows "unpackAndReplaceSeqOddSSSE3Asm dst src t (int n)
           = Returns (replace_bytes t (take n src) @ drop (2 * n) dst)"
proof -
  let ?U = "replace_bytes t (take n src) @ drop (2 * n) dst"
  have len: "length ?U = length dst" "n \<le> length src" "2 * n \<le> length ?U" "length t = 16"
    using assms by (simp_all add: length_replace_bytes min_def)
  have U: "take (2 * n) ?U = replace_bytes t (take n src)"
    using assms by (simp add: length_replace_bytes min_def)
  have "dst = take (2 * 0) ?U @ drop (2 * 0) dst" by simp
  from unpackAndReplaceSeqOddSSSE3Loop_correct [OF len U this] assms
  obtain d' where loop: "unpackAndReplaceSeqOddSSSE3Loop t Mask0f0f (int n - 16) 0 0 src dst
            = Returns (take (2 * d') ?U @ drop (2 * d') dst)" and d': "n \<le> d' + 16" "d' \<le> n"
    by auto
  have n16: "int n - 16 = int (n - 16)" using assms by simp
  have "\<exists>X5 X3 c1. MOVOU_load src (int (n - 16)) = Some (take 16 (drop (n - 16) src))
     \<and> unpackAndReplaceSeqOddSSSE3Body t Mask0f0f (take 16 (drop (n - 16) src)) = (X5, X3)
     \<and> MOVOU_store (take (2 * d') ?U @ drop (2 * d') dst) (2 * int (n - 16)) X5 = Some c1
     \<and> MOVOU_store c1 (2 * int (n - 16) + 16) X3
         = Some (take (2 * (n - 16 + 16)) ?U @ drop (2 * (n - 16 + 16)) dst)"
    using assms d' by (intro unpackAndReplaceSeqOddSSSE3_step [OF len U refl]) simp_all
  then obtain X5 X3 c1 where fin:
    "MOVOU_load src (int n - 16) = Some (take 16 (drop (n - 16) src))"
    "unpackAndReplaceSeqOddSSSE3Body t Mask0f0f (take 16 (drop (n - 16) src)) = (X5, X3)"
    "MOVOU_store (take (2 * d') ?U @ drop (2 * d') dst) ((int n - 16) * 2) X5 = Some c1"
    "MOVOU_store c1 ((int n - 16) * 2 + 16) X3
         = Some (take (2 * (n - 16 + 16)) ?U @ drop (2 * (n - 16 + 16)) dst)"
    unfolding n16 by (auto simp add: mult.commute)
  have tbl: "MOVOU_load t 0 = Some t"
    using assms(4) by (simp add: MOVOU_load_def)
  have "take (2 * (n - 16 + 16)) ?U @ drop (2 * (n - 16 + 16)) dst = ?U"
    using assms by (simp add: length_replace_bytes)
  then show ?thesis
    using loop fin
    by (simp add: unpackAndReplaceSeqOddSSSE3Asm_def Let_def andThen_def tbl)
qed



lemma at_table:
  assumes "length t = 16" "c < 16"
  shows "at t (uint (c :: byte)) = Some (t ! unat c)"
proof -
  have "uint c < 16"
    using assms(2) by (simp add: word_less_def)
  then show ?thesis
    using assms(1) by (simp add: at_def)
qed

lemma replace_single:
  assumes U: "take (2 * n) U = replace_bytes t (take n src)" and "k < n" "n \<le> length src"
  shows "[t ! unat (drop_bit 4 (src ! k)), t ! unat (src ! k AND 15)] = take 2 (drop (2 * k) U)"
proof -
  have "k + 1 \<le> n" using assms(2) by simp
  from replace_window [OF U this]
  have "take 2 (drop (2 * k) U) = replace_bytes t (take 1 (drop k src))" by simp
  also have "take 1 (drop k src) = [src ! k]"
    using assms(2,3) by (simp add: take_Suc_conv_app_nth)
  finally show ?thesis by (simp add: replace_bytes_def unpack_bytes_def)
qed

lemma UnpackAndReplaceSeq_loop_correct:
  assumes len: "length U = length D" "n \<le> length src" "2 * n \<le> length U" "length t = 16"
    and U: "take (2 * n) U = replace_bytes t (take n src)"
    and cur: "cur = take (2 * k) U @ drop (2 * k) D" and k: "k \<le> n"
  shows "UnpackAndReplaceSeq_loop k n cur src t = Returns (take (2 * n) U @ drop (2 * n) D)"
  using cur k
proof (induction "n - k" arbitrary: k cur rule: less_induct)
  case less
  show ?case
  proof (cases "k < n")
    case False
    with less.prems have "k = n" by simp
    then show ?thesis
      using less.prems by (subst UnpackAndReplaceSeq_loop.simps) simp
  next
    case True
    have lcur: "length cur = length U"
      using len less.prems True by simp
    let ?a = "t ! unat (drop_bit 4 (src ! k))" and ?b = "t ! unat (src ! k AND 15)"
    have upd: "cur[2 * k := ?a, Suc (2 * k) := ?b] = take (2 * (k + 1)) U @ drop (2 * (k + 1)) D"
    proof -
      have "cur[2 * k := ?a, Suc (2 * k) := ?b] = take (2 * k) cur @ [?a, ?b] @ drop (2 * k + 2) cur"
        using True len lcur by (intro update_pair) simp
      also have "\<dots> = take (2 * k) cur @ take 2 (drop (2 * k) U) @ drop (2 * k + 2) cur"
        using replace_single [OF U True len(2)] by simp
      also have "\<dots> = take (2 * k + 2) U @ drop (2 * k + 2) D"
        using splice_window [OF len(1) less.prems(1), of "2 * k" 2] True len by simp
      finally show ?thesis by simp
    qed
    have "n - (k + 1) < n - k" "k + 1 \<le> n" using True by simp_all
    from less.hyps [OF this(1) upd this(2)]
    have "UnpackAndReplaceSeq_loop (k + 1) n (cur[2 * k := ?a, Suc (2 * k) := ?b]) src t
            = Returns (take (2 * n) U @ drop (2 * n) D)" .
    moreover have "at src (int k) = Some (src ! k)"
      using True len by (simp add: at_nat)
    moreover have "at t (uint (drop_bit 4 (src ! k))) = Some ?a"
      "at t (uint (src ! k AND 15)) = Some ?b"
      using len(4) by (simp_all add: at_table nibble_less_16)
    moreover have "set_at cur (int (2 * k)) ?a = Some (cur[2 * k := ?a])"
      using True len lcur by (intro set_at_nat) simp
    moreover have "set_at (cur[2 * k := ?a]) (int (2 * k + 1)) ?b = Some (cur[2 * k := ?a, Suc (2 * k) := ?b])"
      using True len lcur set_at_nat [of "2 * k + 1" "cur[2 * k := ?a]" ?b] by simp
    ultimately show ?thesis
      using True by (subst UnpackAndReplaceSeq_loop.simps) simp
  qed
qed



lemma UnpackAndReplaceSeq_main:
  assumes "length src = (length dst + 1) div 2" "length t = 16"
  shows "UnpackAndReplaceSeq dst src t
     = Returns (map (\<lambda>p. t ! unat (if even p then drop_bit 4 (src ! (p div 2))
                                      else src ! (p div 2) AND 15)) [0..<length dst])"
proof -
  define n where "n = length dst div 2"
  let ?U = "replace_bytes t (take n src) @ drop (2 * n) dst"
  let ?f = "\<lambda>p. t ! unat (if even p then drop_bit 4 (src ! (p div 2)) else src ! (p div 2) AND 15)"
  have n: "2 * n \<le> length dst" "n \<le> length src" "length src = n + length dst mod 2"
    using assms by (simp_all add: n_def) presburger+
  have len: "length ?U = length dst" "n \<le> length src" "2 * n \<le> length ?U" "length t = 16"
    using n assms(2) by (simp_all add: length_replace_bytes min_def)
  have U: "take (2 * n) ?U = replace_bytes t (take n src)"
    using n by (simp add: length_replace_bytes min_def)
  have "take (2 * n) ?U @ drop (2 * n) dst = ?U"
    using n by (simp add: length_replace_bytes min_def)
  then have scalar: "UnpackAndReplaceSeq_loop 0 n dst src t = Returns ?U"
    using UnpackAndReplaceSeq_loop_correct [OF len U, of dst 0] by simp
  have asm: "16 \<le> n \<Longrightarrow> unpackAndReplaceSeqOddSSSE3Asm dst src t (int n) = Returns ?U"
    using n assms(2) by (intro unpackAndReplaceSeqOddSSSE3Asm_correct) simp_all
  have first: "(if n < bytesPerVec then UnpackAndReplaceSeq_loop 0 n dst src t
            else unpackAndReplaceSeqOddSSSE3Asm dst src t (int n)) = Returns ?U"
    using scalar asm by (simp add: bytesPerVec_def)
  have Unth: "p < 2 * n \<Longrightarrow> ?U ! p = ?f p" for p
    using n nth_replace_bytes [of p "take n src" t]
    by (simp add: nth_append length_replace_bytes min_def)
  show ?thesis
  proof (cases "even (length dst)")
    case True
    then have l: "length dst = 2 * n" by (auto simp add: n_def)
    have "?U = map ?f [0..<length dst]"
      using Unth len by (intro nth_equalityI) (simp_all add: l)
    then show ?thesis
      using True n first
      by (simp add: UnpackAndReplaceSeq_def Let_def drop_bit_eq_div and_one_eq n_def [symmetric]
          andThen_def mod_2_eq_odd split del: if_split cong: if_cong)
  next
    case False
    then have l: "length dst = 2 * n + 1" by (auto simp add: n_def elim: oddE)
    let ?h = "t ! unat (drop_bit 4 (src ! n))"
    have "?U[2 * n := ?h] = map ?f [0..<length dst]"
    proof (rule nth_equalityI)
      show "length (?U[2 * n := ?h]) = length (map ?f [0..<length dst])"
        using len by simp
    next
      fix p assume "p < length (?U[2 * n := ?h])"
      then have p: "p < 2 * n + 1" using len l by simp
      show "?U[2 * n := ?h] ! p = map ?f [0..<length dst] ! p"
      proof (cases "p = 2 * n")
        case True
        then show ?thesis using len l by (simp del: length_append upt_Suc)
      next
        case False
        with p have "p < 2 * n" by simp
        then show ?thesis using Unth [of p] l by (simp del: length_append nth_append upt_Suc)
      qed
    qed
    moreover have "at src (int n) = Some (src ! n)"
      using n False by (intro at_nat) (simp add: mod_2_eq_odd)
    moreover have "at t (uint (drop_bit 4 (src ! n))) = Some ?h"
      using len(4) by (simp add: at_table nibble_less_16)
    moreover have "set_at ?U (int (2 * n)) ?h = Some (?U[2 * n := ?h])"
      using len l by (intro set_at_nat) simp
    ultimately show ?thesis
      using False n first
      by (simp add: UnpackAndReplaceSeq_def Let_def drop_bit_eq_div and_one_eq n_def [symmetric]
          andThen_def mod_2_eq_odd del: length_append split del: if_split cong: if_cong)
  qed
qed

section \<open>Correctness of PackSeq\<close>



lemma code_high_bits: "(c :: byte) < 16 \<Longrightarrow> 4 \<le> m \<Longrightarrow> \<not> bit c m"
  using bit_take_bit_iff [of 4 c m] by (simp add: code_take_bit)

lemma lane_sll12:
  assumes "length l = 8" "\<forall>c \<in> set l. c < 16" "0 < i" "i < 8"
  shows "(ucast (drop_bit (8 * i) (push_bit 12 (lane_of_bytes l))) :: byte) = push_bit 4 (l ! (i - 1))"
proof (rule bit_word_eqI)
  fix m assume "m < LENGTH(8)"
  then have m8: "m < 8" by simp
  obtain j where i: "i = Suc j" using assms(3) by (cases i) simp_all
  have lhs: "bit (ucast (drop_bit (8 * i) (push_bit 12 (lane_of_bytes l))) :: byte) m
      \<longleftrightarrow> 12 \<le> 8 * i + m \<and> bit (lane_of_bytes l) (8 * i + m - 12)"
    using m8 assms(4) by (simp add: bit_byte_of_lane bit_push_bit_iff)
  show "bit (ucast (drop_bit (8 * i) (push_bit 12 (lane_of_bytes l))) :: byte) m
        \<longleftrightarrow> bit (push_bit 4 (l ! (i - 1))) m"
  proof (cases "4 \<le> m")
    case True
    then obtain r where m: "m = 4 + r" using le_Suc_ex by blast
    have k: "8 * i + m - 12 = 8 * j + r" by (simp add: i m)
    have dm: "(8 * j + r) div 8 = j" "(8 * j + r) mod 8 = r"
      using m8 m by simp_all
    show ?thesis
      unfolding lhs k bit_lane_of_bytes dm
      using assms(1,4) m8 by (simp add: i m bit_push_bit_iff)
  next
    case False
    then have m4: "m < 4" by simp
    have "\<not> bit (push_bit 4 (l ! (i - 1))) m"
      using m4 by (simp add: bit_push_bit_iff)
    moreover have "\<not> (12 \<le> 8 * i + m \<and> bit (lane_of_bytes l) (8 * i + m - 12))"
    proof (cases j)
      case 0
      then show ?thesis using m4 i by simp
    next
      case (Suc j')
      have k: "8 * i + m - 12 = 8 * j' + (4 + m)" by (simp add: i Suc)
      have dm: "(8 * j' + (4 + m)) div 8 = j'" "(8 * j' + (4 + m)) mod 8 = 4 + m"
        using m4 by simp_all
      have "j' < length l" using assms(1,4) i Suc by simp
      then have "l ! j' < 16" using assms(2) by simp
      then have "\<not> bit (l ! j') (4 + m)" by (rule code_high_bits) simp
      then show ?thesis
        unfolding k bit_lane_of_bytes dm by simp
    qed
    ultimately show ?thesis
      unfolding lhs by simp
  qed
qed

lemma nth_POR: "i < length d \<Longrightarrow> i < length s \<Longrightarrow> POR s d ! i = d ! i OR s ! i"
  by (simp add: POR_def)

lemma nth_shift_or:
  assumes "length v = 16" "\<forall>c \<in> set v. c < 16" "j < 16" "j \<noteq> 0" "j \<noteq> 8"
  shows "POR v (PSLLQ 12 v) ! j = push_bit 4 (v ! (j - 1)) OR v ! j"
proof (cases "j < 8")
  case True
  have "\<forall>c \<in> set (take 8 v). c < 16"
    using assms(2) by (meson in_set_takeD)
  from lane_sll12 [OF _ this, of j] True assms
  show ?thesis
    by (simp add: nth_POR length_per_lane PSLLQ_def nth_per_lane)
next
  case False
  have "\<forall>c \<in> set (drop 8 v). c < 16"
    using assms(2) by (meson in_set_dropD)
  from lane_sll12 [OF _ this, of "j - 8"] False assms
  show ?thesis
    by (simp add: nth_POR length_per_lane PSLLQ_def nth_per_lane)
qed



lemma PSHUFB_GatherOddLow:
  "PSHUFB GatherOddLow W = [W ! 1, W ! 3, W ! 5, W ! 7, W ! 9, W ! 11, W ! 13, W ! 15,
                            0, 0, 0, 0, 0, 0, 0, 0]"
  by (simp add: xmm_GatherOddLow PSHUFB_def)

lemma PSHUFB_GatherOddHigh:
  "PSHUFB GatherOddHigh W = [0, 0, 0, 0, 0, 0, 0, 0,
                             W ! 1, W ! 3, W ! 5, W ! 7, W ! 9, W ! 11, W ! 13, W ! 15]"
  by (simp add: xmm_GatherOddHigh PSHUFB_def)

lemma list16:
  assumes "length v = 16"
  shows "v = [v ! 0, v ! 1, v ! 2, v ! 3, v ! 4, v ! 5, v ! 6, v ! 7,
              v ! 8, v ! 9, v ! 10, v ! 11, v ! 12, v ! 13, v ! 14, v ! 15]"
proof -
  have "v = map (\<lambda>i. v ! i) [0..<16]"
    using assms map_nth [of v] by simp
  also have "[0..<16] = [0, 1, 2, 3, 4, 5, 6, 7, 8, 9, 10, 11, 12, 13, 14, 15 :: nat]"
    by (simp add: upt_rec)
  finally show ?thesis by simp
qed

lemma packSeqOddSSSE3Body_eq:
  assumes "length v2 = 16" "length v3 = 16" "\<forall>c \<in> set v2. c < 16" "\<forall>c \<in> set v3. c < 16"
  shows "packSeqOddSSSE3Body GatherOddLow GatherOddHigh v2 v3 = pack_bytes (v2 @ v3)"
proof -
  let ?W2 = "POR v2 (PSLLQ 12 v2)" and ?W3 = "POR v3 (PSLLQ 12 v3)"
  have W2: "?W2 ! j = push_bit 4 (v2 ! (j - 1)) OR v2 ! j" if "j < 16" "j \<noteq> 0" "j \<noteq> 8" for j
    using nth_shift_or [OF assms(1,3) that] .
  have W3: "?W3 ! j = push_bit 4 (v3 ! (j - 1)) OR v3 ! j" if "j < 16" "j \<noteq> 0" "j \<noteq> 8" for j
    using nth_shift_or [OF assms(2,4) that] .
  have "packSeqOddSSSE3Body GatherOddLow GatherOddHigh v2 v3
      = POR (PSHUFB GatherOddHigh ?W3) (PSHUFB GatherOddLow ?W2)"
    by (simp add: packSeqOddSSSE3Body_def Let_def)
  also have "\<dots> = [?W2 ! 1, ?W2 ! 3, ?W2 ! 5, ?W2 ! 7, ?W2 ! 9, ?W2 ! 11, ?W2 ! 13, ?W2 ! 15,
                    ?W3 ! 1, ?W3 ! 3, ?W3 ! 5, ?W3 ! 7, ?W3 ! 9, ?W3 ! 11, ?W3 ! 13, ?W3 ! 15]"
    by (simp only: PSHUFB_GatherOddLow PSHUFB_GatherOddHigh) (simp add: POR_def)
  also have "\<dots> = pack_bytes ([v2 ! 0, v2 ! 1, v2 ! 2, v2 ! 3, v2 ! 4, v2 ! 5, v2 ! 6, v2 ! 7,
              v2 ! 8, v2 ! 9, v2 ! 10, v2 ! 11, v2 ! 12, v2 ! 13, v2 ! 14, v2 ! 15]
            @ [v3 ! 0, v3 ! 1, v3 ! 2, v3 ! 3, v3 ! 4, v3 ! 5, v3 ! 6, v3 ! 7,
              v3 ! 8, v3 ! 9, v3 ! 10, v3 ! 11, v3 ! 12, v3 ! 13, v3 ! 14, v3 ! 15])"
    by (simp add: W2 W3)
  also have "\<dots> = pack_bytes (v2 @ v3)"
    using list16 [OF assms(1)] list16 [OF assms(2)] by simp
  finally show ?thesis .
qed

lemma length_pack_bytes: "length (pack_bytes cs) = length cs div 2"
  by (induction cs rule: pack_bytes.induct) simp_all

lemma pack_bytes_take: "pack_bytes (take (2 * k) cs) = take k (pack_bytes cs)"
  apply (induction cs arbitrary: k rule: pack_bytes.induct)
  subgoal for hi lo cs k by (cases k) simp_all
  subgoal by simp
  subgoal for v k by (cases k) simp_all
  done

lemma pack_bytes_drop: "pack_bytes (drop (2 * k) cs) = drop k (pack_bytes cs)"
  apply (induction cs arbitrary: k rule: pack_bytes.induct)
  subgoal for hi lo cs k by (cases k) simp_all
  subgoal by simp
  subgoal for v k by (cases k) simp_all
  done

lemma nth_pack_bytes:
  "q < length cs div 2 \<Longrightarrow> pack_bytes cs ! q = push_bit 4 (cs ! (2 * q)) OR cs ! (2 * q + 1)"
proof (induction cs arbitrary: q rule: pack_bytes.induct)
  case (1 hi lo cs)
  then show ?case by (cases q) simp_all
qed simp_all

lemma pack_window:
  assumes U: "take n U = pack_bytes (take (2 * n) src)" and "d + k \<le> n"
  shows "pack_bytes (take (2 * k) (drop (2 * d) src)) = take k (drop d U)"
proof -
  have "take k (drop d U) = take k (drop d (take n U))"
    using assms(2) by (simp add: drop_take min_def)
  also have "\<dots> = pack_bytes (take (2 * k) (drop (2 * d) (take (2 * n) src)))"
    by (simp add: U pack_bytes_take pack_bytes_drop)
  also have "take (2 * k) (drop (2 * d) (take (2 * n) src)) = take (2 * k) (drop (2 * d) src)"
    using assms(2) by (simp add: drop_take min_def)
  finally show ?thesis by simp
qed



lemma take_16_16: "take 16 (drop p xs) @ take 16 (drop (p + 16) xs) = take 32 (drop p xs)"
proof -
  have "take 32 (drop p xs) = take (16 + 16) (drop p xs)" by simp
  also have "\<dots> = take 16 (drop p xs) @ take 16 (drop 16 (drop p xs))"
    by (simp only: take_add)
  finally show ?thesis by (simp add: add.commute)
qed

lemma packSeqOddSSSE3_step:
  assumes len: "length U = length D" "2 * n \<le> length src" "n \<le> length U"
    and codes: "\<forall>c \<in> set src. c < 16"
    and U: "take n U = pack_bytes (take (2 * n) src)"
    and cur: "cur = take a U @ drop a D" and a: "r \<le> a" "a \<le> r + 16"
    and r: "r + 16 \<le> n"
  shows "MOVOU_load src (2 * int r) = Some (take 16 (drop (2 * r) src))"
    "MOVOU_load src (2 * int r + 16) = Some (take 16 (drop (2 * r + 16) src))"
    "MOVOU_store cur (int r) (packSeqOddSSSE3Body GatherOddLow GatherOddHigh
         (take 16 (drop (2 * r) src)) (take 16 (drop (2 * r + 16) src)))
       = Some (take (r + 16) U @ drop (r + 16) D)"
proof -
  let ?v2 = "take 16 (drop (2 * r) src)" and ?v3 = "take 16 (drop (2 * r + 16) src)"
  show "MOVOU_load src (2 * int r) = Some ?v2"
    using MOVOU_load_nat [of "2 * r" src] len r by simp
  show "MOVOU_load src (2 * int r + 16) = Some ?v3"
    using MOVOU_load_nat [of "2 * r + 16" src] len r by simp
  have l: "length ?v2 = 16" "length ?v3 = 16"
    using len r by simp_all
  have c: "\<forall>c \<in> set ?v2. c < 16" "\<forall>c \<in> set ?v3. c < 16"
    using codes by (meson in_set_takeD in_set_dropD)+
  have "packSeqOddSSSE3Body GatherOddLow GatherOddHigh ?v2 ?v3 = pack_bytes (?v2 @ ?v3)"
    by (rule packSeqOddSSSE3Body_eq [OF l c])
  also have "\<dots> = pack_bytes (take (2 * 16) (drop (2 * r) src))"
    by (simp add: take_16_16)
  also have "\<dots> = take 16 (drop r U)"
    by (rule pack_window [OF U r])
  finally have body: "packSeqOddSSSE3Body GatherOddLow GatherOddHigh ?v2 ?v3 = take 16 (drop r U)" .
  show "MOVOU_store cur (int r) (packSeqOddSSSE3Body GatherOddLow GatherOddHigh ?v2 ?v3)
       = Some (take (r + 16) U @ drop (r + 16) D)"
    using len r by (intro store_window [OF len(1) cur a _ body]) simp
qed

lemma packSeqOddSSSE3Loop_correct:
  assumes len: "length U = length D" "2 * n \<le> length src" "n \<le> length U"
    and codes: "\<forall>c \<in> set src. c < 16"
    and U: "take n U = pack_bytes (take (2 * n) src)"
    and cur: "cur = take r U @ drop r D" and r: "r + 16 \<le> n"
  shows "\<exists>r'. packSeqOddSSSE3Loop GatherOddLow GatherOddHigh (2 * int n - 32) (2 * int r) (int r) src cur
            = Returns (take r' U @ drop r' D) \<and> n \<le> r' + 16 \<and> r' \<le> n"
  using cur r
proof (induction "n - r" arbitrary: r cur rule: less_induct)
  case less
  have "r \<le> r" "r \<le> r + 16" by simp_all
  note step = packSeqOddSSSE3_step [OF len codes U less.prems(1) this less.prems(2)]
  let ?next = "take (r + 16) U @ drop (r + 16) D"
  show ?case
  proof (cases "2 * int n - 32 > 2 * int r + 32")
    case True
    then have r': "r + 16 + 16 \<le> n" by simp
    then have "n - (r + 16) < n - r" by simp
    from less.hyps [OF this refl r']
    obtain r' where rec: "packSeqOddSSSE3Loop GatherOddLow GatherOddHigh (2 * int n - 32)
              (2 * int (r + 16)) (int (r + 16)) src ?next
            = Returns (take r' U @ drop r' D)" "n \<le> r' + 16" "r' \<le> n"
      by blast
    have e: "int (r + 16) = int r + 16" "2 * (int r + 16) = 2 * int r + 32"
      by simp_all
    have "packSeqOddSSSE3Loop GatherOddLow GatherOddHigh (2 * int n - 32) (2 * int r) (int r) src cur
        = packSeqOddSSSE3Loop GatherOddLow GatherOddHigh (2 * int n - 32) (2 * int r + 32) (int r + 16) src ?next"
      using True by (subst packSeqOddSSSE3Loop.simps) (simp add: step)
    also note rec(1) [unfolded e]
    finally show ?thesis using rec(2,3) by blast
  next
    case False
    have "packSeqOddSSSE3Loop GatherOddLow GatherOddHigh (2 * int n - 32) (2 * int r) (int r) src cur
            = Returns ?next"
      using False by (subst packSeqOddSSSE3Loop.simps) (simp add: step)
    moreover have "n \<le> r + 16 + 16" "r + 16 \<le> n" using False less.prems by simp_all
    ultimately show ?thesis by blast
  qed
qed

lemma packSeqOddSSSE3Asm_correct:
  assumes "16 \<le> n" "2 * n \<le> length src" "n \<le> length dst" "\<forall>c \<in> set src. c < 16"
  shows "packSeqOddSSSE3Asm dst src (int n) = Returns (pack_bytes (take (2 * n) src) @ drop n dst)"
proof -
  let ?U = "pack_bytes (take (2 * n) src) @ drop n dst"
  have lp: "length (pack_bytes (take (2 * n) src)) = n"
    using assms by (simp add: length_pack_bytes min_def)
  have len: "length ?U = length dst" "2 * n \<le> length src" "n \<le> length ?U"
    using assms lp by simp_all
  have U: "take n ?U = pack_bytes (take (2 * n) src)"
    using lp by simp
  have "dst = take 0 ?U @ drop 0 dst" by simp
  from packSeqOddSSSE3Loop_correct [OF len assms(4) U this] assms
  obtain r' where loop: "packSeqOddSSSE3Loop GatherOddLow GatherOddHigh (2 * int n - 32) 0 0 src dst
            = Returns (take r' ?U @ drop r' dst)" and r': "n \<le> r' + 16" "r' \<le> n"
    by auto
  have "n - 16 \<le> r'" "r' \<le> n - 16 + 16" "n - 16 + 16 \<le> n"
    using assms r' by simp_all
  note fin = packSeqOddSSSE3_step [OF len assms(4) U refl this]
  have e: "2 * int (n - 16) = 2 * int n - 32" "int (n - 16) = int n - 16"
    "2 * (n - 16) + 16 = 2 * n - 16" "2 * (n - 16) = 2 * n - 32"
    using assms by simp_all
  have "take (n - 16 + 16) ?U @ drop (n - 16 + 16) dst = ?U"
    using assms lp by simp
  then show ?thesis
    using loop fin [unfolded e]
    by (simp add: packSeqOddSSSE3Asm_def Let_def andThen_def algebra_simps)
qed



lemma pack_single:
  assumes U: "take n U = pack_bytes (take (2 * n) src)" and "k < n" "2 * n \<le> length src"
  shows "[push_bit 4 (src ! (2 * k)) OR src ! (2 * k + 1)] = take 1 (drop k U)"
proof -
  have "k + 1 \<le> n" using assms(2) by simp
  from pack_window [OF U this]
  have "take 1 (drop k U) = pack_bytes (take 2 (drop (2 * k) src))" by simp
  also have "take 2 (drop (2 * k) src) = [src ! (2 * k), src ! (2 * k + 1)]"
    using assms(2,3) by (simp add: take_Suc_conv_app_nth numeral_2_eq_2)
  finally show ?thesis by simp
qed

lemma PackSeq_loop_correct:
  assumes len: "length U = length D" "2 * n \<le> length src" "n \<le> length U"
    and U: "take n U = pack_bytes (take (2 * n) src)"
    and cur: "cur = take k U @ drop k D" and k: "k \<le> n"
  shows "PackSeq_loop k n cur src = Returns (take n U @ drop n D)"
  using cur k
proof (induction "n - k" arbitrary: k cur rule: less_induct)
  case less
  show ?case
  proof (cases "k < n")
    case False
    with less.prems have "k = n" by simp
    then show ?thesis
      using less.prems by (subst PackSeq_loop.simps) simp
  next
    case True
    have lcur: "length cur = length U"
      using len less.prems True by simp
    let ?v = "push_bit 4 (src ! (2 * k)) OR src ! (2 * k + 1)"
    have upd: "cur[k := ?v] = take (k + 1) U @ drop (k + 1) D"
    proof -
      have "cur[k := ?v] = take k cur @ [?v] @ drop (k + 1) cur"
        using True len lcur by (simp add: upd_conv_take_nth_drop)
      also have "\<dots> = take k cur @ take 1 (drop k U) @ drop (k + 1) cur"
        using pack_single [OF U True len(2)] by simp
      also have "\<dots> = take (k + 1) U @ drop (k + 1) D"
        using splice_window [OF len(1) less.prems(1), of k 1] True len by simp
      finally show ?thesis .
    qed
    have "n - (k + 1) < n - k" "k + 1 \<le> n" using True by simp_all
    from less.hyps [OF this(1) upd this(2)]
    have "PackSeq_loop (k + 1) n (cur[k := ?v]) src = Returns (take n U @ drop n D)" .
    moreover have "at src (int (2 * k)) = Some (src ! (2 * k))"
      using True len by (intro at_nat) simp
    moreover have "at src (int (2 * k + 1)) = Some (src ! (2 * k + 1))"
      using True len by (intro at_nat) simp
    moreover have "set_at cur (int k) ?v = Some (cur[k := ?v])"
      using True len lcur by (intro set_at_nat) simp
    ultimately show ?thesis
      using True by (subst PackSeq_loop.simps) simp
  qed
qed

lemma pack_bytes_even_take:
  "2 * n \<le> length src \<Longrightarrow> length src \<le> 2 * n + 1 \<Longrightarrow> pack_bytes (take (2 * n) src) = pack_bytes src"
proof -
  assume a: "2 * n \<le> length src" "length src \<le> 2 * n + 1"
  have "pack_bytes (take (2 * n) src) = take n (pack_bytes src)"
    by (rule pack_bytes_take)
  also have "\<dots> = pack_bytes src"
    using a by (simp add: length_pack_bytes)
  finally show ?thesis .
qed

lemma PackSeq_main:
  assumes "length dst = (length src + 1) div 2" "\<forall>c \<in> set src. c < 16"
  shows "PackSeq dst src
     = Returns (pack_bytes src @ (if odd (length src) then [push_bit 4 (src ! (length src - 1))] else []))"
proof -
  define n where "n = length src div 2"
  let ?U = "pack_bytes (take (2 * n) src) @ drop n dst"
  have n: "2 * n \<le> length src" "length src \<le> 2 * n + 1" "n \<le> length dst"
    "length dst = n + length src mod 2"
    using assms(1) by (simp_all add: n_def) presburger+
  have lp: "length (pack_bytes (take (2 * n) src)) = n"
    using n by (simp add: length_pack_bytes min_def)
  have len: "length ?U = length dst" "2 * n \<le> length src" "n \<le> length ?U"
    using n lp by simp_all
  have U: "take n ?U = pack_bytes (take (2 * n) src)"
    using lp by simp
  have "take n ?U @ drop n dst = ?U"
    using lp by simp
  then have scalar: "PackSeq_loop 0 n dst src = Returns ?U"
    using PackSeq_loop_correct [OF len U, of dst 0] by simp
  have asm: "16 \<le> n \<Longrightarrow> packSeqOddSSSE3Asm dst src (int n) = Returns ?U"
    using n assms(2) by (intro packSeqOddSSSE3Asm_correct) simp_all
  have first: "(if n < bytesPerVec then PackSeq_loop 0 n dst src
            else packSeqOddSSSE3Asm dst src (int n)) = Returns ?U"
    using scalar asm by (simp add: bytesPerVec_def)
  have pk: "pack_bytes (take (2 * n) src) = pack_bytes src"
    using n by (intro pack_bytes_even_take) simp_all
  show ?thesis
  proof (cases "even (length src)")
    case True
    then have "length dst = n" using n by (simp add: mod_2_eq_odd)
    then have "?U = pack_bytes src" by (simp add: pk)
    then show ?thesis
      using True n first
      by (simp add: PackSeq_def Let_def drop_bit_eq_div and_one_eq n_def [symmetric]
          andThen_def mod_2_eq_odd split del: if_split cong: if_cong)
  next
    case False
    then have l: "length dst = n + 1" "length src = 2 * n + 1"
      using n by (auto simp add: mod_2_eq_odd n_def elim: oddE)
    let ?h = "push_bit 4 (src ! (n * 2))"
    have "length (drop n dst) = 1" using l by simp
    then obtain x where "drop n dst = [x]"
      by (cases "drop n dst") simp_all
    then have "?U[n := ?h] = pack_bytes src @ [?h]"
      using lp by (simp add: pk list_update_append)
    moreover have "at src (int (n * 2)) = Some (src ! (n * 2))"
      using l by (intro at_nat) simp
    moreover have "set_at ?U (int n) ?h = Some (?U[n := ?h])"
      using len l by (intro set_at_nat) simp
    ultimately show ?thesis
      using False n first l(2)
      by (simp add: PackSeq_def Let_def drop_bit_eq_div and_one_eq n_def [symmetric]
          andThen_def mod_2_eq_odd mult.commute del: length_append split del: if_split cong: if_cong)
  qed
qed



lemma push_4_and_15: "push_bit 4 (a :: byte) AND 15 = 0"
  by (rule bit_word_eqI) (auto simp add: and_15_take_bit bit_take_bit_iff bit_push_bit_iff)

lemma unpack_pack_hi: "b < 16 \<Longrightarrow> a < 16 \<Longrightarrow> drop_bit 4 (push_bit 4 a OR b) = (a :: byte)"
proof (rule bit_word_eqI)
  fix m assume b: "b < 16" and a: "a < 16" and "m < LENGTH(8)"
  have "\<not> bit b (4 + m)" using b by (rule code_high_bits) simp
  moreover have "m < 4" if "bit a m"
    using code_high_bits [OF a, of m] that by (cases "4 \<le> m") simp_all
  ultimately show "bit (drop_bit 4 (push_bit 4 a OR b)) m \<longleftrightarrow> bit a m"
    by (auto simp add: bit_drop_bit_eq bit_or_iff bit_push_bit_iff)
qed

lemma unpack_pack_lo: "b < 16 \<Longrightarrow> (push_bit 4 a OR b) AND 15 = (b :: byte)"
  by (simp add: bit.conj_disj_distrib2 push_4_and_15 code_and_15)

lemma unpack_pack_last: "a < 16 \<Longrightarrow> drop_bit 4 (push_bit 4 a) = (a :: byte)"
  using unpack_pack_hi [of 0 a] by simp

section \<open>Correctness of ReverseComp\<close>



lemma PSHUFB_Reverse8:
  assumes "length v = 16"
  shows "PSHUFB Reverse8 v = rev v"
proof -
  have "PSHUFB Reverse8 v = [v ! 15, v ! 14, v ! 13, v ! 12, v ! 11, v ! 10, v ! 9, v ! 8,
                             v ! 7, v ! 6, v ! 5, v ! 4, v ! 3, v ! 2, v ! 1, v ! 0]"
    by (simp add: xmm_Reverse8 PSHUFB_def)
  also have "\<dots> = rev [v ! 0, v ! 1, v ! 2, v ! 3, v ! 4, v ! 5, v ! 6, v ! 7,
              v ! 8, v ! 9, v ! 10, v ! 11, v ! 12, v ! 13, v ! 14, v ! 15]"
    by simp
  also have "\<dots> = rev v"
    using list16 [OF assms] by simp
  finally show ?thesis .
qed

lemma Lookup_revCompTable: "ReverseComp4Lookup = revCompTable"
  by (simp add: xmm_ReverseComp4Lookup revCompTable_def)

lemma reverse_complement_vector:
  assumes "length v = 16" "\<forall>c \<in> set v. c < 16"
  shows "PSHUFB (PSHUFB Reverse8 v) ReverseComp4Lookup = map comp4 (rev v)"
proof -
  have "PSHUFB (rev v) revCompTable = map (\<lambda>c. revCompTable ! unat c) (rev v)"
    using assms(2) by (intro PSHUFB_codes) simp
  then show ?thesis
    by (simp add: PSHUFB_Reverse8 [OF assms(1)] Lookup_revCompTable comp4_def [abs_def])
qed

lemma rev_window:
  assumes "p + 16 + q = length xs"
  shows "rev (take 16 (drop p xs)) = take 16 (drop q (rev xs))"
proof -
  have l: "length xs - p = q + 16" "length (drop p xs) - 16 = q"
    using assms by simp_all
  have "rev (take 16 (drop p xs)) = drop (length (drop p xs) - 16) (rev (drop p xs))"
    by (rule rev_take)
  also have "\<dots> = drop q (take (q + 16) (rev xs))"
    by (simp only: l rev_drop)
  also have "\<dots> = take 16 (drop q (rev xs))"
    by (simp add: drop_take)
  finally show ?thesis .
qed

lemma reverse_complement_window:
  assumes "p + 16 + q = length src" "\<forall>c \<in> set src. c < 16"
  shows "PSHUFB (PSHUFB Reverse8 (take 16 (drop p src))) ReverseComp4Lookup
         = take 16 (drop q (map comp4 (rev src)))"
proof -
  have "\<forall>c \<in> set (take 16 (drop p src)). c < 16"
    using assms(2) by (meson in_set_takeD in_set_dropD)
  moreover have "length (take 16 (drop p src)) = 16"
    using assms(1) by simp
  ultimately have "PSHUFB (PSHUFB Reverse8 (take 16 (drop p src))) ReverseComp4Lookup
      = map comp4 (rev (take 16 (drop p src)))"
    by (intro reverse_complement_vector)
  then show ?thesis
    by (simp add: rev_window [OF assms(1)] take_map drop_map)
qed

lemma reverseComp4SSSE3_step:
  assumes len: "length src = length D" "\<forall>c \<in> set src. c < 16"
    and cur: "cur = take a (map comp4 (rev src)) @ drop a D" and a: "d \<le> a" "a \<le> d + 16"
    and d: "s + 16 + d = length src"
  shows "MOVOU_load src (int s) = Some (take 16 (drop s src))"
    "MOVOU_store cur (int d)
        (PSHUFB (PSHUFB Reverse8 (take 16 (drop s src))) ReverseComp4Lookup)
       = Some (take (d + 16) (map comp4 (rev src)) @ drop (d + 16) D)"
proof -
  let ?R = "map comp4 (rev src)"
  show "MOVOU_load src (int s) = Some (take 16 (drop s src))"
    using d by (simp add: MOVOU_load_nat)
  have v: "PSHUFB (PSHUFB Reverse8 (take 16 (drop s src))) ReverseComp4Lookup
      = take 16 (drop d ?R)"
    by (rule reverse_complement_window [OF d len(2)])
  have lR: "length ?R = length D"
    using len by simp
  show "MOVOU_store cur (int d)
        (PSHUFB (PSHUFB Reverse8 (take 16 (drop s src))) ReverseComp4Lookup)
       = Some (take (d + 16) ?R @ drop (d + 16) D)"
    using d len by (intro store_window [OF lR cur a _ v]) simp
qed

lemma reverseComp4SSSE3Loop_correct:
  assumes len: "length src = length D" "\<forall>c \<in> set src. c < 16"
    and cur: "cur = take d (map comp4 (rev src)) @ drop d D" and d: "s + 16 + d = length src"
  shows "\<exists>d'. reverseComp4SSSE3Loop Reverse8 ReverseComp4Lookup (int (length src) - 16)
              (int s) (int d) src cur
            = Returns (take d' (map comp4 (rev src)) @ drop d' D)
          \<and> length src \<le> d' + 16 \<and> d' \<le> length src"
  using cur d
proof (induction s arbitrary: d cur rule: less_induct)
  case (less s)
  let ?n = "length src" and ?R = "map comp4 (rev src)"
  have "d \<le> d" "d \<le> d + 16" by simp_all
  note step = reverseComp4SSSE3_step [OF len less.prems(1) this less.prems(2)]
  let ?next = "take (d + 16) ?R @ drop (d + 16) D"
  show ?case
  proof (cases "int ?n - 16 > int d + 16")
    case True
    with less.prems(2) obtain s' where s': "s = s' + 16"
      using le_Suc_ex [of 16 s] by (auto simp add: add.commute)
    then have "s' < s" "s' + 16 + (d + 16) = ?n"
      using less.prems(2) by simp_all
    from less.IH [OF this(1) refl this(2)]
    obtain d' where rec: "reverseComp4SSSE3Loop Reverse8 ReverseComp4Lookup (int ?n - 16)
              (int s') (int (d + 16)) src ?next
            = Returns (take d' ?R @ drop d' D)" "?n \<le> d' + 16" "d' \<le> ?n"
      by blast
    have e: "int s' = int s - 16" "int (d + 16) = int d + 16"
      using s' by simp_all
    have "reverseComp4SSSE3Loop Reverse8 ReverseComp4Lookup (int ?n - 16) (int s) (int d) src cur
        = reverseComp4SSSE3Loop Reverse8 ReverseComp4Lookup (int ?n - 16)
              (int s - 16) (int d + 16) src ?next"
      using True by (subst reverseComp4SSSE3Loop.simps) (simp add: step Let_def)
    also note rec(1) [unfolded e]
    finally show ?thesis using rec(2,3) by blast
  next
    case False
    have "reverseComp4SSSE3Loop Reverse8 ReverseComp4Lookup (int ?n - 16) (int s) (int d) src cur
            = Returns ?next"
      using False by (subst reverseComp4SSSE3Loop.simps) (simp add: step Let_def)
    moreover have "?n \<le> d + 16 + 16" "d + 16 \<le> ?n" using False less.prems by simp_all
    ultimately show ?thesis by blast
  qed
qed

lemma reverseComp4SSSE3Asm_correct:
  assumes "16 \<le> length src" "length dst = length src" "\<forall>c \<in> set src. c < 16"
  shows "reverseComp4SSSE3Asm dst src (int (length src)) = Returns (map comp4 (rev src))"
proof -
  let ?n = "length src" and ?R = "map comp4 (rev src)"
  have len: "length src = length dst" using assms(2) by simp
  obtain s where s: "?n = s + 16"
    using assms(1) le_Suc_ex [of 16 ?n] by (auto simp add: add.commute)
  have "dst = take 0 ?R @ drop 0 dst" "s + 16 + 0 = ?n" using s by simp_all
  from reverseComp4SSSE3Loop_correct [OF len assms(3) this]
  obtain d' where loop: "reverseComp4SSSE3Loop Reverse8 ReverseComp4Lookup (int ?n - 16)
              (int s) 0 src dst = Returns (take d' ?R @ drop d' dst)"
    and d': "?n \<le> d' + 16" "d' \<le> ?n"
    by auto
  have "s \<le> d'" "d' \<le> s + 16" "0 + 16 + s = ?n"
    using s d' by simp_all
  note fin = reverseComp4SSSE3_step [OF len assms(3) refl this]
  have e: "int ?n - 16 = int s" "- 16 + int ?n = int s"
    using s by simp_all
  have "take (s + 16) ?R @ drop (s + 16) dst = ?R"
    using s len by simp
  then show ?thesis
    using loop fin
    by (simp add: reverseComp4SSSE3Asm_def Let_def andThen_def e)
qed



lemma at_revCompTable: "c < 16 \<Longrightarrow> at revCompTable (uint c) = Some (comp4 c)"
  using at_table [of revCompTable c] by (simp add: comp4_def revCompTable_def)

lemma update_window:
  assumes "length U = length D" "cur = take k U @ drop k D" "k < length U"
  shows "cur[k := U ! k] = take (k + 1) U @ drop (k + 1) D"
proof -
  have "length cur = length U" using assms by simp
  then have "cur[k := U ! k] = take k cur @ [U ! k] @ drop (k + 1) cur"
    using assms(3) by (simp add: upd_conv_take_nth_drop)
  also have "[U ! k] = take 1 (drop k U)"
    using assms(3) by (simp add: take_Suc_conv_app_nth)
  also have "take k cur @ take 1 (drop k U) @ drop (k + 1) cur = take (k + 1) U @ drop (k + 1) D"
    using splice_window [OF assms(1,2), of k 1] assms(3) by simp
  finally show ?thesis .
qed

lemma nth_reverse_complement:
  "k + j + 1 = length src \<Longrightarrow> map comp4 (rev src) ! k = comp4 (src ! j)"
proof -
  assume a: "k + j + 1 = length src"
  then have "length src - Suc k = j" "k < length src" by simp_all
  then show ?thesis by (simp add: rev_nth)
qed

lemma ReverseComp_loop_correct:
  assumes len: "length src = length D" "\<forall>c \<in> set src. c < 16"
    and cur: "cur = take k (map comp4 (rev src)) @ drop k D" and k: "k \<le> length src"
  shows "ReverseComp_loop k (int (length src) - 1 - int k) (length src) cur src
           = Returns (map comp4 (rev src))"
  using cur k
proof (induction "length src - k" arbitrary: k cur rule: less_induct)
  case less
  let ?n = "length src" and ?R = "map comp4 (rev src)"
  have lR: "length ?R = length D" using len by simp
  show ?case
  proof (cases "k = ?n")
    case True
    then show ?thesis
      using less.prems len by (subst ReverseComp_loop.simps) simp
  next
    case False
    with less.prems(2) obtain j where j: "k + j + 1 = ?n"
      using less_imp_add_positive [of k ?n] by (metis Suc_eq_plus1 add_Suc_right le_neq_implies_less less_imp_Suc_add)
    have inv: "int ?n - 1 - int k = int j"
      using j by simp
    have lcur: "length cur = ?n"
      using less.prems len by simp
    have upd: "cur[k := ?R ! k] = take (k + 1) ?R @ drop (k + 1) D"
      using j by (intro update_window [OF lR less.prems(1)]) simp
    have "?n - (k + 1) < ?n - k" "k + 1 \<le> ?n" using j by simp_all
    from less.hyps [OF this(1) upd this(2)]
    have "ReverseComp_loop (k + 1) (int ?n - 1 - int (k + 1)) ?n (cur[k := ?R ! k]) src = Returns ?R" .
    moreover have "int ?n - 1 - int (k + 1) = int j - 1"
      using j by simp
    moreover have "at src (int j) = Some (src ! j)"
      using j by (intro at_nat) simp
    moreover have "src ! j < 16"
      using len(2) j by simp
    then have "at revCompTable (uint (src ! j)) = Some (comp4 (src ! j))"
      by (rule at_revCompTable)
    moreover have "?R ! k = comp4 (src ! j)"
      using j by (rule nth_reverse_complement)
    moreover have "set_at cur (int k) (?R ! k) = Some (cur[k := ?R ! k])"
      using j lcur by (intro set_at_nat) simp
    ultimately show ?thesis
      using False unfolding inv by (subst ReverseComp_loop.simps) simp
  qed
qed

lemma ReverseComp_main:
  assumes "length dst = length src" "\<forall>c \<in> set src. c < 16"
  shows "ReverseComp dst src = Returns (map comp4 (rev src))"
proof (cases "length src < 16")
  case True
  have "dst = take 0 (map comp4 (rev src)) @ drop 0 dst" by simp
  from ReverseComp_loop_correct [OF assms(1) [symmetric] assms(2) this]
  have "ReverseComp_loop 0 (int (length src) - 1) (length src) dst src = Returns (map comp4 (rev src))"
    by simp
  with True assms(1) show ?thesis
    by (simp add: ReverseComp_def Let_def bytesPerVec_def)
next
  case False
  then have "16 \<le> length src" by simp
  from reverseComp4SSSE3Asm_correct [OF this assms] False assms(1) show ?thesis
    by (simp add: ReverseComp_def Let_def bytesPerVec_def)
qed

section \<open>Correctness of ReverseCompInplace\<close>




lemma done_on_start: "done_on {} orig orig"
  by (simp add: done_on_def)

lemma done_on_all:
  assumes "done_on S orig cur" "{..<length orig} \<subseteq> S"
  shows "cur = map comp4 (rev orig)"
proof (rule nth_equalityI)
  show "length cur = length (map comp4 (rev orig))"
    using assms(1) by (simp add: done_on_def)
next
  fix i assume "i < length cur"
  then have "i < length orig" using assms(1) by (simp add: done_on_def)
  moreover from this have "i \<in> S" using assms(2) by auto
  ultimately show "cur ! i = map comp4 (rev orig) ! i"
    using assms(1) by (simp add: done_on_def)
qed

lemma done_on_update:
  assumes "done_on S orig cur" "i < length orig"
  shows "done_on (insert i S) orig (cur[i := map comp4 (rev orig) ! i])"
  using assms by (auto simp add: done_on_def nth_list_update)

lemma done_on_nth:
  "done_on S orig cur \<Longrightarrow> i < length orig \<Longrightarrow> i \<notin> S \<Longrightarrow> cur ! i = orig ! i"
  by (simp add: done_on_def)

lemma done_on_load:
  assumes "done_on S orig cur" "p + 16 \<le> length orig" "S \<inter> {p..<p + 16} = {}"
  shows "MOVOU_load cur (int p) = Some (take 16 (drop p orig))"
proof -
  have l: "length cur = length orig" using assms(1) by (simp add: done_on_def)
  have "take 16 (drop p cur) = take 16 (drop p orig)"
  proof (rule nth_equalityI)
    show "length (take 16 (drop p cur)) = length (take 16 (drop p orig))"
      using l by simp
  next
    fix j assume "j < length (take 16 (drop p cur))"
    then have j: "j < 16" by simp
    then have "p + j < length orig" "p + j \<notin> S"
      using assms(2,3) by auto
    then have "cur ! (p + j) = orig ! (p + j)"
      using assms(1) by (intro done_on_nth)
    then show "take 16 (drop p cur) ! j = take 16 (drop p orig) ! j"
      using j assms(2) l by simp
  qed
  then show ?thesis
    using assms(2) l by (simp add: MOVOU_load_nat)
qed

lemma done_on_store:
  assumes "done_on S orig cur" "\<forall>c \<in> set orig. c < 16" "p + 16 + q = length orig"
  shows "\<exists>cur'. MOVOU_store cur (int q)
            (PSHUFB (PSHUFB Reverse8 (take 16 (drop p orig))) ReverseComp4Lookup) = Some cur'
          \<and> done_on (S \<union> {q..<q + 16}) orig cur'"
proof -
  let ?R = "map comp4 (rev orig)"
  let ?V = "take 16 (drop q ?R)"
  let ?c = "take q cur @ ?V @ drop (q + 16) cur"
  have l: "length cur = length orig" using assms(1) by (simp add: done_on_def)
  have v: "PSHUFB (PSHUFB Reverse8 (take 16 (drop p orig))) ReverseComp4Lookup = ?V"
    by (rule reverse_complement_window [OF assms(3,2)])
  have st: "MOVOU_store cur (int q) ?V = Some ?c"
    using assms(3) l by (simp add: MOVOU_store_nat)
  have lc: "length ?c = length orig"
    using assms(3) l by simp
  have "?c ! i = (if i \<in> S \<union> {q..<q + 16} then ?R ! i else orig ! i)" if i: "i < length orig" for i
  proof -
    consider "i < q" | "q \<le> i" "i < q + 16" | "q + 16 \<le> i" by linarith
    then show ?thesis
    proof cases
      case 1
      then have "?c ! i = cur ! i"
        using l assms(3) by (simp add: nth_append)
      with 1 i assms(1) show ?thesis by (simp add: done_on_def)
    next
      case 2
      then obtain j where j: "i = q + j" "j < 16"
        using le_Suc_ex [of q i] by auto
      have "?c ! i = ?V ! j"
        using j l assms(3) by (simp add: nth_append)
      also have "\<dots> = ?R ! i"
        using j assms(3) by simp
      finally show ?thesis using 2 by simp
    next
      case 3
      then obtain j where j: "i = q + 16 + j"
        using le_Suc_ex [of "q + 16" i] by auto
      have "?c ! i = cur ! i"
        using j l assms(3) i by (simp add: nth_append add.assoc)
      with 3 i assms(1) show ?thesis by (simp add: done_on_def)
    qed
  qed
  then have "done_on (S \<union> {q..<q + 16}) orig ?c"
    using lc unfolding done_on_def by blast
  with st v show ?thesis by simp
qed



lemma SHRQ_nonneg: "0 \<le> x \<Longrightarrow> x < 2 ^ 64 \<Longrightarrow> SHRQ 1 x = x div 2"
  unfolding SHRQ_def by (simp only: mod_pos_pos_trivial power_one_right)

lemma SHRQ_1:
  assumes "1 \<le> n" "n < 2 ^ 64"
  shows "SHRQ 1 (int n - 1) = int ((n - 1) div 2)"
proof -
  have e: "int n - 1 = int (n - 1)"
    using assms(1) by simp
  have "int (n - 1) < int (2 ^ 64)"
    using assms(2) by (simp only: of_nat_less_iff)
  also have "int (2 ^ 64) = 2 ^ 64"
    by (simp only: of_nat_power of_nat_numeral)
  finally have "SHRQ 1 (int (n - 1)) = int (n - 1) div 2"
    by (intro SHRQ_nonneg) simp_all
  also have "\<dots> = int ((n - 1) div 2)"
    by (simp only: of_nat_div of_nat_numeral)
  finally show ?thesis
    by (simp only: e)
qed



lemma and_8_nat: "(h :: nat) AND 8 = (if odd (h div 8) then 8 else 0)"
proof (rule bit_eqI)
  fix m
  have "(8 :: nat) = 2 ^ 3" by simp
  then have "bit (h AND 8) m \<longleftrightarrow> bit h m \<and> m = 3"
    by (simp only: bit_and_iff bit_exp_iff) auto
  moreover have "bit (8 :: nat) m \<longleftrightarrow> m = 3"
    using bit_exp_iff [of 3 m, where ?'a = nat] by simp
  moreover have "bit h 3 \<longleftrightarrow> odd (h div 8)"
    by (simp add: bit_iff_odd)
  ultimately show "bit (h AND 8) m \<longleftrightarrow> bit (if odd (h div 8) then 8 else 0 :: nat) m"
    by auto
qed

lemma and_8_int: "int h AND 8 = (if odd (h div 8) then 8 else 0)"
proof -
  have "int h AND 8 = int (h AND 8)"
    by (simp add: of_nat_and_eq)
  then show ?thesis by (simp add: and_8_nat)
qed



lemma window_arith_B:
  fixes h n a :: nat
  assumes "h = (n - 1) div 2" "1 \<le> n" "16 dvd a" "a + 8 \<le> h" "h < a + 24" "odd (h div 8)"
  shows "n \<le> 2 * a + 32"
proof -
  from assms(3) obtain k where k: "a = 16 * k" by (auto elim: dvdE)
  have "2 * k + 1 \<le> h div 8" "h div 8 < 2 * k + 3"
    using assms(4,5) k by simp_all
  then have "h div 8 = 2 * k + 1 \<or> h div 8 = 2 * k + 2"
    by linarith
  with assms(6) have "h div 8 = 2 * k + 1" by auto
  then have "h < 16 * k + 16" by simp
  with assms(1,2) k show ?thesis by simp
qed

lemma window_arith_A:
  fixes h n a :: nat
  assumes "h = (n - 1) div 2" "1 \<le> n" "16 dvd a" "a + 24 \<le> h" "h < a + 40" "even (h div 8)"
  shows "2 * a + 65 \<le> n" "n \<le> 2 * a + 80"
proof -
  from assms(3) obtain k where k: "a = 16 * k" by (auto elim: dvdE)
  have "2 * k + 3 \<le> h div 8" "h div 8 < 2 * k + 5"
    using assms(4,5) k by simp_all
  then have "h div 8 = 2 * k + 3 \<or> h div 8 = 2 * k + 4"
    by linarith
  with assms(6) have "h div 8 = 2 * k + 4" by auto
  then have "16 * k + 32 \<le> h" "h < 16 * k + 40" by simp_all
  with assms(1,2) k show "2 * a + 65 \<le> n" "n \<le> 2 * a + 80" by simp_all
qed

lemma window_arith_A0:
  fixes h n :: nat
  assumes "h = (n - 1) div 2" "17 \<le> n" "h < 24" "even (h div 8)"
  shows "33 \<le> n" "n \<le> 48"
proof -
  have "8 \<le> h" using assms(1,2) by simp
  then have "1 \<le> h div 8" "h div 8 < 3"
    using assms(3) by simp_all
  then have "h div 8 = 1 \<or> h div 8 = 2"
    by linarith
  with assms(4) have "h div 8 = 2" by auto
  then have "16 \<le> h" "h < 24" by simp_all
  with assms(1,2) show "33 \<le> n" "n \<le> 48" by simp_all
qed



lemma inplace_step:
  assumes inv: "done_on ({..<a} \<union> {e..<length orig}) orig cur"
    and codes: "\<forall>c \<in> set orig. c < 16"
    and ae: "a + e = length orig" and d: "d + 16 = e" and w: "a + 16 \<le> e"
  shows "MOVOU_load cur (int a) = Some (take 16 (drop a orig))"
    "MOVOU_load cur (int d) = Some (take 16 (drop d orig))"
    "\<exists>s1 s2. MOVOU_store cur (int a)
          (PSHUFB (PSHUFB Reverse8 (take 16 (drop d orig))) ReverseComp4Lookup) = Some s1
       \<and> MOVOU_store s1 (int d)
          (PSHUFB (PSHUFB Reverse8 (take 16 (drop a orig))) ReverseComp4Lookup) = Some s2
       \<and> done_on ({..<a + 16} \<union> {d..<length orig}) orig s2"
proof -
  let ?S = "{..<a} \<union> {e..<length orig}"
  show "MOVOU_load cur (int a) = Some (take 16 (drop a orig))"
    using ae d w by (intro done_on_load [OF inv]) auto
  show "MOVOU_load cur (int d) = Some (take 16 (drop d orig))"
    using ae d w by (intro done_on_load [OF inv]) auto
  have "d + 16 + a = length orig" using ae d by simp
  from done_on_store [OF inv codes this]
  obtain s1 where s1: "MOVOU_store cur (int a)
          (PSHUFB (PSHUFB Reverse8 (take 16 (drop d orig))) ReverseComp4Lookup) = Some s1"
    "done_on (?S \<union> {a..<a + 16}) orig s1"
    by blast
  have "a + 16 + d = length orig" using ae d by simp
  from done_on_store [OF s1(2) codes this]
  obtain s2 where s2: "MOVOU_store s1 (int d)
          (PSHUFB (PSHUFB Reverse8 (take 16 (drop a orig))) ReverseComp4Lookup) = Some s2"
    "done_on (?S \<union> {a..<a + 16} \<union> {d..<d + 16}) orig s2"
    by blast
  have "?S \<union> {a..<a + 16} \<union> {d..<d + 16} = {..<a + 16} \<union> {d..<length orig}"
    using ae d w by auto
  with s2(2) have "done_on ({..<a + 16} \<union> {d..<length orig}) orig s2"
    by simp
  with s1(1) s2(1) show "\<exists>s1 s2. MOVOU_store cur (int a)
          (PSHUFB (PSHUFB Reverse8 (take 16 (drop d orig))) ReverseComp4Lookup) = Some s1
       \<and> MOVOU_store s1 (int d)
          (PSHUFB (PSHUFB Reverse8 (take 16 (drop a orig))) ReverseComp4Lookup) = Some s2
       \<and> done_on ({..<a + 16} \<union> {d..<length orig}) orig s2"
    by blast
qed

lemma LastThree_correct:
  assumes inv: "done_on ({..<s} \<union> {e..<length orig}) orig cur"
    and codes: "\<forall>c \<in> set orig. c < 16"
    and se: "s + e = length orig" and d: "d2 + 16 = e" "d3 + 16 = d2"
    and w: "s + 32 \<le> e" "e \<le> s + 48"
  shows "reverseComp4InplaceSSSE3LastThree Reverse8 ReverseComp4Lookup (int s) (int d2) cur
         = Returns (map comp4 (rev orig))"
proof -
  let ?S = "{..<s} \<union> {e..<length orig}"
  let ?rc = "\<lambda>p. PSHUFB (PSHUFB Reverse8 (take 16 (drop p orig))) ReverseComp4Lookup"
  have l1: "MOVOU_load cur (int s) = Some (take 16 (drop s orig))"
    using se d w by (intro done_on_load [OF inv]) auto
  have "MOVOU_load cur (int (s + 16)) = Some (take 16 (drop (s + 16) orig))"
    using se d w by (intro done_on_load [OF inv]) auto
  then have l2: "MOVOU_load cur (int s + 16) = Some (take 16 (drop (s + 16) orig))"
    by simp
  have l3: "MOVOU_load cur (int d2) = Some (take 16 (drop d2 orig))"
    using se d w by (intro done_on_load [OF inv]) auto
  have "d2 + 16 + s = length orig" using se d by simp
  from done_on_store [OF inv codes this]
  obtain s1 where s1: "MOVOU_store cur (int s) (?rc d2) = Some s1"
    "done_on (?S \<union> {s..<s + 16}) orig s1"
    by blast
  have "s + 16 + 16 + d3 = length orig" using se d by simp
  from done_on_store [OF s1(2) codes this]
  obtain s2 where s2: "MOVOU_store s1 (int d3) (?rc (s + 16)) = Some s2"
    "done_on (?S \<union> {s..<s + 16} \<union> {d3..<d3 + 16}) orig s2"
    by blast
  have "s + 16 + d2 = length orig" using se d by simp
  from done_on_store [OF s2(2) codes this]
  obtain s3 where s3: "MOVOU_store s2 (int d2) (?rc s) = Some s3"
    "done_on (?S \<union> {s..<s + 16} \<union> {d3..<d3 + 16} \<union> {d2..<d2 + 16}) orig s3"
    by blast
  have "{..<length orig} \<subseteq> ?S \<union> {s..<s + 16} \<union> {d3..<d3 + 16} \<union> {d2..<d2 + 16}"
    using se d w by auto
  from done_on_all [OF s3(2) this] have r: "s3 = map comp4 (rev orig)" .
  have e: "int d2 - 16 = int d3" using d by simp
  show ?thesis
    unfolding reverseComp4InplaceSSSE3LastThree_def
    by (simp add: l1 l2 l3 Let_def e s1(1) s2(1) s3(1) r)
qed



lemma inplace_loop_unfold:
  assumes inv: "done_on ({..<a} \<union> {e..<length orig}) orig cur"
    and codes: "\<forall>c \<in> set orig. c < 16"
    and ae: "a + e = length orig" and d: "d + 16 = e" and w: "a + 16 \<le> e"
  shows "\<exists>s2. done_on ({..<a + 16} \<union> {d..<length orig}) orig s2 \<and>
     reverseComp4InplaceSSSE3Loop Reverse8 ReverseComp4Lookup AX BX (int a) (int d) cur =
       (if AX \<ge> int a + 16
        then reverseComp4InplaceSSSE3Loop Reverse8 ReverseComp4Lookup AX BX (int a + 16) (int d - 16) s2
        else if BX \<noteq> 0 then Returns s2
        else reverseComp4InplaceSSSE3LastThree Reverse8 ReverseComp4Lookup (int a + 16) (int d - 16) s2)"
proof -
  note step = inplace_step [OF inv codes ae d w]
  from step(3) obtain s1 s2 where st:
    "MOVOU_store cur (int a)
          (PSHUFB (PSHUFB Reverse8 (take 16 (drop d orig))) ReverseComp4Lookup) = Some s1"
    "MOVOU_store s1 (int d)
          (PSHUFB (PSHUFB Reverse8 (take 16 (drop a orig))) ReverseComp4Lookup) = Some s2"
    "done_on ({..<a + 16} \<union> {d..<length orig}) orig s2"
    by blast
  have "reverseComp4InplaceSSSE3Loop Reverse8 ReverseComp4Lookup AX BX (int a) (int d) cur =
       (if AX \<ge> int a + 16
        then reverseComp4InplaceSSSE3Loop Reverse8 ReverseComp4Lookup AX BX (int a + 16) (int d - 16) s2
        else if BX \<noteq> 0 then Returns s2
        else reverseComp4InplaceSSSE3LastThree Reverse8 ReverseComp4Lookup (int a + 16) (int d - 16) s2)"
    by (subst reverseComp4InplaceSSSE3Loop.simps)
       (simp add: step(1,2) st(1,2) Let_def split del: if_split cong: if_cong)
  with st(3) show ?thesis by blast
qed

lemma inplace_loop_B:
  fixes h :: nat
  assumes codes: "\<forall>c \<in> set orig. c < 16"
    and h: "h = (length orig - 1) div 2" "1 \<le> length orig" "odd (h div 8)"
    and inv: "done_on ({..<a} \<union> {e..<length orig}) orig cur"
    and ae: "a + e = length orig" and d: "d + 16 = e" and a: "16 dvd a" "a + 8 \<le> h"
  shows "reverseComp4InplaceSSSE3Loop Reverse8 ReverseComp4Lookup (int h - 8) 8 (int a) (int d) cur
         = Returns (map comp4 (rev orig))"
  using inv ae d a
proof (induction "h - a" arbitrary: a e d cur rule: less_induct)
  case less
  have w: "a + 16 \<le> e"
    using less.prems h by simp
  from inplace_loop_unfold [OF less.prems(1) codes less.prems(2,3) w, of "int h - 8" 8]
  obtain s2 where s2: "done_on ({..<a + 16} \<union> {d..<length orig}) orig s2"
    and unf: "reverseComp4InplaceSSSE3Loop Reverse8 ReverseComp4Lookup (int h - 8) 8 (int a) (int d) cur =
       (if int h - 8 \<ge> int a + 16
        then reverseComp4InplaceSSSE3Loop Reverse8 ReverseComp4Lookup (int h - 8) 8 (int a + 16) (int d - 16) s2
        else Returns s2)"
    by auto
  show ?case
  proof (cases "int h - 8 \<ge> int a + 16")
    case True
    then have a': "a + 16 + 8 \<le> h" by simp
    then have "d \<ge> 16" using less.prems h by simp
    then obtain d' where d': "d' + 16 = d"
      using le_Suc_ex [of 16 d] by (auto simp add: add.commute)
    have "h - (a + 16) < h - a" "a + 16 + d = length orig" "16 dvd a + 16"
      using a' less.prems by simp_all
    from less.hyps [OF this(1) s2 this(2) d' this(3) a']
    have "reverseComp4InplaceSSSE3Loop Reverse8 ReverseComp4Lookup (int h - 8) 8
            (int (a + 16)) (int d') s2 = Returns (map comp4 (rev orig))" .
    moreover have "int (a + 16) = int a + 16" "int d' = int d - 16"
      using d' by simp_all
    ultimately show ?thesis
      using True unf by simp
  next
    case False
    then have "h < a + 24" by simp
    from window_arith_B [OF h(1,2) less.prems(4,5) this h(3)]
    have "length orig \<le> 2 * a + 32" .
    then have "{..<length orig} \<subseteq> {..<a + 16} \<union> {d..<length orig}"
      using less.prems by auto
    from done_on_all [OF s2 this] False unf show ?thesis
      by simp
  qed
qed

lemma inplace_loop_A:
  fixes h :: nat
  assumes codes: "\<forall>c \<in> set orig. c < 16"
    and h: "h = (length orig - 1) div 2" "1 \<le> length orig" "even (h div 8)"
    and inv: "done_on ({..<a} \<union> {e..<length orig}) orig cur"
    and ae: "a + e = length orig" and d: "d + 16 = e" and a: "16 dvd a" "a + 24 \<le> h"
  shows "reverseComp4InplaceSSSE3Loop Reverse8 ReverseComp4Lookup (int h - 24) 0 (int a) (int d) cur
         = Returns (map comp4 (rev orig))"
  using inv ae d a
proof (induction "h - a" arbitrary: a e d cur rule: less_induct)
  case less
  have w: "a + 16 \<le> e"
    using less.prems h by simp
  from inplace_loop_unfold [OF less.prems(1) codes less.prems(2,3) w, of "int h - 24" 0]
  obtain s2 where s2: "done_on ({..<a + 16} \<union> {d..<length orig}) orig s2"
    and unf: "reverseComp4InplaceSSSE3Loop Reverse8 ReverseComp4Lookup (int h - 24) 0 (int a) (int d) cur =
       (if int h - 24 \<ge> int a + 16
        then reverseComp4InplaceSSSE3Loop Reverse8 ReverseComp4Lookup (int h - 24) 0 (int a + 16) (int d - 16) s2
        else reverseComp4InplaceSSSE3LastThree Reverse8 ReverseComp4Lookup (int a + 16) (int d - 16) s2)"
    by auto
  have "d \<ge> 16" using less.prems h by simp
  then obtain d' where d': "d' + 16 = d"
    using le_Suc_ex [of 16 d] by (auto simp add: add.commute)
  have e: "int (a + 16) = int a + 16" "int d' = int d - 16"
    using d' by simp_all
  show ?case
  proof (cases "int h - 24 \<ge> int a + 16")
    case True
    then have a': "a + 16 + 24 \<le> h" by simp
    have "h - (a + 16) < h - a" "a + 16 + d = length orig" "16 dvd a + 16"
      using a' less.prems by simp_all
    from less.hyps [OF this(1) s2 this(2) d' this(3) a']
    have "reverseComp4InplaceSSSE3Loop Reverse8 ReverseComp4Lookup (int h - 24) 0
            (int (a + 16)) (int d') s2 = Returns (map comp4 (rev orig))" .
    then show ?thesis
      using True unf e by simp
  next
    case False
    then have "h < a + 40" by simp
    note n = window_arith_A [OF h(1,2) less.prems(4,5) this h(3)]
    have "d' \<ge> 16" using n less.prems d' by simp
    then obtain d3 where d3: "d3 + 16 = d'"
      using le_Suc_ex [of 16 d'] by (auto simp add: add.commute)
    have "a + 16 + d = length orig" "a + 16 + 32 \<le> d" "d \<le> a + 16 + 48"
      using n less.prems by simp_all
    from LastThree_correct [OF s2 codes this(1) d' d3 this(2,3)]
    have "reverseComp4InplaceSSSE3LastThree Reverse8 ReverseComp4Lookup (int (a + 16)) (int d') s2
         = Returns (map comp4 (rev orig))" .
    then show ?thesis
      using False unf e by simp
  qed
qed

lemma reverseComp4InplaceSSSE3Asm_correct:
  assumes "17 \<le> length seq8" "length seq8 < 2 ^ 64" "\<forall>c \<in> set seq8. c < 16"
  shows "reverseComp4InplaceSSSE3Asm seq8 (int (length seq8)) = Returns (map comp4 (rev seq8))"
proof -
  let ?n = "length seq8"
  define h where "h = (?n - 1) div 2"
  have n1: "1 \<le> ?n" using assms(1) by simp
  have "SHRQ 1 (int ?n - 1) = int h"
    unfolding h_def by (rule SHRQ_1 [OF n1 assms(2)])
  then have shr: "SHRQ (Suc 0) (int ?n - 1) = int h"
    by simp
  obtain d where d: "d + 16 = ?n"
    using assms(1) le_Suc_ex [of 16 ?n] by (auto simp add: add.commute)
  have di: "- 16 + int ?n = int d" "int ?n - 16 = int d" using d by simp_all
  have inv: "done_on ({..<0} \<union> {?n..<?n}) seq8 seq8"
    by (simp add: done_on_start)
  have h8: "8 \<le> h" using assms(1) by (simp add: h_def)
  show ?thesis
  proof (cases "odd (h div 8)")
    case True
    have "reverseComp4InplaceSSSE3Loop Reverse8 ReverseComp4Lookup (int h - 8) 8 (int 0) (int d) seq8
         = Returns (map comp4 (rev seq8))"
      using h8 by (intro inplace_loop_B [OF assms(3) h_def n1 True inv _ d]) simp_all
    then show ?thesis
      using True h8
      by (simp add: reverseComp4InplaceSSSE3Asm_def Let_def shr and_8_int di)
  next
    case False
    show ?thesis
    proof (cases "h < 24")
      case True
      note n = window_arith_A0 [OF h_def assms(1) True] 
      have "d \<ge> 16" using n False d by simp
      then obtain d3 where d3: "d3 + 16 = d"
        using le_Suc_ex [of 16 d] by (auto simp add: add.commute)
      have "0 + ?n = ?n" "0 + 32 \<le> ?n" "?n \<le> 0 + 48"
        using n False by simp_all
      from LastThree_correct [OF inv assms(3) this(1) d d3 this(2,3)]
      have "reverseComp4InplaceSSSE3LastThree Reverse8 ReverseComp4Lookup 0 (int d) seq8
         = Returns (map comp4 (rev seq8))"
        by simp
      then show ?thesis
        using True False
        by (simp add: reverseComp4InplaceSSSE3Asm_def Let_def shr and_8_int di)
    next
      case ge: False
      have "reverseComp4InplaceSSSE3Loop Reverse8 ReverseComp4Lookup (int h - 24) 0 (int 0) (int d) seq8
         = Returns (map comp4 (rev seq8))"
        using ge False by (intro inplace_loop_A [OF assms(3) h_def n1 _ inv _ d]) simp_all
      then show ?thesis
        using ge False
        by (simp add: reverseComp4InplaceSSSE3Asm_def Let_def shr and_8_int di)
    qed
  qed
qed



lemma done_on_length: "done_on S orig cur \<Longrightarrow> length cur = length orig"
  by (simp add: done_on_def)

lemma ReverseCompInplace_loop_correct:
  assumes codes: "\<forall>c \<in> set orig. c < 16"
    and m: "m + ef = length orig" "m \<le> ef"
    and inv: "done_on ({..<k} \<union> {e..<length orig}) orig cur"
    and ke: "k + e = length orig" and k: "k \<le> m"
  shows "\<exists>cur'. ReverseCompInplace_loop k (int e - 1) m cur = Returns cur'
            \<and> done_on ({..<m} \<union> {ef..<length orig}) orig cur'"
  using inv ke k
proof (induction "m - k" arbitrary: k e cur rule: less_induct)
  case less
  let ?R = "map comp4 (rev orig)"
  show ?case
  proof (cases "k = m")
    case True
    with less.prems(2) m(1) have "e = ef" by simp
    with True less.prems(1) show ?thesis
      by (subst ReverseCompInplace_loop.simps) simp
  next
    case False
    with less.prems(3) have km: "k < m" by simp
    then have "1 \<le> e" using less.prems(2) m by simp
    then obtain j where j: "j + 1 = e"
      using le_Suc_ex [of 1 e] by (auto simp add: add.commute)
    have kj: "k < j" "j < length orig" "k + j + 1 = length orig" "j + k + 1 = length orig"
      using km j less.prems(2) m by simp_all
    have lcur: "length cur = length orig"
      using less.prems(1) by (rule done_on_length)
    have cj: "cur ! j = orig ! j" and ck: "cur ! k = orig ! k"
      using kj j by (auto intro!: done_on_nth [OF less.prems(1)])
    have Rk: "?R ! k = comp4 (orig ! j)"
      using kj(3) by (rule nth_reverse_complement)
    have Rj: "?R ! j = comp4 (orig ! k)"
      using kj(4) by (rule nth_reverse_complement)
    have ej: "int e - 1 = int j" using j by simp
    have r1: "at cur (int j) = Some (orig ! j)"
      using at_nat [of j cur] kj lcur cj by simp
    have r2: "at revCompTable (uint (orig ! j)) = Some (?R ! k)"
      using codes kj by (simp add: at_revCompTable Rk)
    have r3: "at cur (int k) = Some (orig ! k)"
      using at_nat [of k cur] kj lcur ck by simp
    have r4: "at revCompTable (uint (orig ! k)) = Some (?R ! j)"
      using codes kj by (simp add: at_revCompTable Rj)
    have w1: "set_at cur (int k) (?R ! k) = Some (cur[k := ?R ! k])"
      using kj lcur by (intro set_at_nat) simp
    have w2: "set_at (cur[k := ?R ! k]) (int j) (?R ! j) = Some (cur[k := ?R ! k, j := ?R ! j])"
      using kj lcur by (intro set_at_nat) simp
    have "done_on (insert j (insert k ({..<k} \<union> {e..<length orig}))) orig (cur[k := ?R ! k, j := ?R ! j])"
      using kj by (intro done_on_update less.prems(1)) simp_all
    moreover have "insert j (insert k ({..<k} \<union> {e..<length orig})) = {..<k + 1} \<union> {j..<length orig}"
      using kj j by auto
    ultimately have inv': "done_on ({..<k + 1} \<union> {j..<length orig}) orig (cur[k := ?R ! k, j := ?R ! j])"
      by simp
    have "m - (k + 1) < m - k" "k + 1 + j = length orig" "k + 1 \<le> m"
      using km kj by simp_all
    from less.hyps [OF this(1) inv' this(2,3)]
    obtain cur' where rec: "ReverseCompInplace_loop (k + 1) (int j - 1) m (cur[k := ?R ! k, j := ?R ! j])
        = Returns cur'" "done_on ({..<m} \<union> {ef..<length orig}) orig cur'"
      by blast
    have "ReverseCompInplace_loop k (int j) m cur = Returns cur'"
      using False rec(1)
      by (subst ReverseCompInplace_loop.simps) (simp add: r1 r2 r3 r4 w1 w2)
    with rec(2) show ?thesis unfolding ej by blast
  qed
qed

lemma ReverseCompInplace_main:
  assumes "\<forall>c \<in> set seq8. c < 16" "length seq8 < 2 ^ 64"
  shows "ReverseCompInplace seq8 = Returns (map comp4 (rev seq8))"
proof (cases "length seq8 \<le> 16")
  case False
  then have "17 \<le> length seq8" by simp
  from reverseComp4InplaceSSSE3Asm_correct [OF this assms(2,1)] False show ?thesis
    by (simp add: ReverseCompInplace_def Let_def bytesPerVec_def)
next
  case True
  let ?n = "length seq8" and ?R = "map comp4 (rev seq8)"
  define m where "m = ?n div 2"
  have "m + (?n - m) = ?n" "m \<le> ?n - m"
    by (simp_all add: m_def)
  then obtain ef where ef: "m + ef = ?n" "m \<le> ef"
    by blast
  have inv: "done_on ({..<0} \<union> {?n..<?n}) seq8 seq8"
    by (simp add: done_on_start)
  from ReverseCompInplace_loop_correct [OF assms(1) ef inv]
  obtain cur where loop: "ReverseCompInplace_loop 0 (int ?n - 1) m seq8 = Returns cur"
    and cur: "done_on ({..<m} \<union> {ef..<?n}) seq8 cur"
    by auto
  show ?thesis
  proof (cases "even ?n")
    case True
    then have "ef = m" using ef by (auto simp add: m_def)
    then have "{..<?n} \<subseteq> {..<m} \<union> {ef..<?n}" by auto
    from done_on_all [OF cur this] loop True \<open>?n \<le> 16\<close> show ?thesis
      by (simp add: ReverseCompInplace_def Let_def bytesPerVec_def drop_bit_eq_div and_one_eq
          m_def [symmetric] andThen_def mod_2_eq_odd)
  next
    case False
    then have mm: "m + m + 1 = ?n" "ef = m + 1"
      using ef by (auto simp add: m_def elim: oddE)
    have lcur: "length cur = ?n" using cur by (rule done_on_length)
    have "cur ! m = seq8 ! m"
      using mm by (intro done_on_nth [OF cur]) auto
    then have r1: "at cur (int m) = Some (seq8 ! m)"
      using at_nat [of m cur] mm lcur by simp
    have Rm: "?R ! m = comp4 (seq8 ! m)"
      using mm by (intro nth_reverse_complement) simp
    have r2: "at revCompTable (uint (seq8 ! m)) = Some (?R ! m)"
      using assms(1) mm by (simp add: at_revCompTable Rm)
    have w: "set_at cur (int m) (?R ! m) = Some (cur[m := ?R ! m])"
      using mm lcur by (intro set_at_nat) simp
    have "done_on (insert m ({..<m} \<union> {ef..<?n})) seq8 (cur[m := ?R ! m])"
      using mm by (intro done_on_update cur) simp
    moreover have "{..<?n} \<subseteq> insert m ({..<m} \<union> {ef..<?n})"
      using mm by auto
    ultimately have "cur[m := ?R ! m] = ?R"
      by (rule done_on_all)
    with loop False \<open>?n \<le> 16\<close> show ?thesis
      by (simp add: ReverseCompInplace_def Let_def bytesPerVec_def drop_bit_eq_div and_one_eq
          m_def [symmetric] andThen_def mod_2_eq_odd r1 r2 w)
  qed
qed

section \<open>The complement table\<close>



lemma code_cases:
  assumes "(c :: byte) < 16"
  shows "c \<in> {0, 1, 2, 3, 4, 5, 6, 7, 8, 9, 10, 11, 12, 13, 14, 15}"
proof -
  have u: "[0..<16] = [0, 1, 2, 3, 4, 5, 6, 7, 8, 9, 10, 11, 12, 13, 14, 15 :: nat]"
    by (simp add: upt_rec)
  have "unat c < 16" using assms by (rule unat_code)
  then have "unat c \<in> set [0..<16]" by simp
  then have "unat c \<in> set [0, 1, 2, 3, 4, 5, 6, 7, 8, 9, 10, 11, 12, 13, 14, 15]"
    by (simp only: u)
  then have "(word_of_nat (unat c) :: byte)
      \<in> word_of_nat ` set [0, 1, 2, 3, 4, 5, 6, 7, 8, 9, 10, 11, 12, 13, 14, 15]"
    by (rule imageI)
  also have "word_of_nat ` set [0, 1, 2, 3, 4, 5, 6, 7, 8, 9, 10, 11, 12, 13, 14, 15]
      = {0, 1, 2, 3, 4, 5, 6, 7, 8, 9, 10, 11, 12, 13, 14, 15 :: byte}"
    by simp
  finally show ?thesis by simp
qed

lemma comp4_involution: "c < 16 \<Longrightarrow> comp4 (comp4 c) = c"
  using code_cases [of c] by (auto simp add: comp4_def revCompTable_def)

lemma comp4_code: "c < 16 \<Longrightarrow> comp4 c < 16"
  using code_cases [of c] by (auto simp add: comp4_def revCompTable_def)

lemma reverse_complement_twice:
  assumes "\<forall>c \<in> set s. c < 16"
  shows "map comp4 (rev (map comp4 (rev s))) = s"
proof -
  have "map comp4 (rev (map comp4 (rev s))) = map (comp4 \<circ> comp4) s"
    by (simp add: rev_map)
  also have "\<dots> = map id s"
    using assms by (intro map_cong) (simp_all add: comp4_involution)
  finally show ?thesis by simp
qed

lemma reverse_complement_codes:
  "\<forall>c \<in> set s. c < 16 \<Longrightarrow> \<forall>c \<in> set (map comp4 (rev s)). c < 16"
  by (simp add: comp4_code)

section \<open>The 2-bit reverse complement routines\<close>



lemma PXOR_Mask0303:
  assumes "length v = 16"
  shows "PXOR Mask0303 v = map (\<lambda>c. c XOR 3) v"
  using assms by (intro nth_equalityI) (simp_all add: PXOR_def xmm_Mask0303)

lemma complement2_window:
  assumes "p + 16 + q = length src"
  shows "PXOR Mask0303 (PSHUFB Reverse8 (take 16 (drop p src)))
         = take 16 (drop q (map (\<lambda>c. c XOR 3) (rev src)))"
proof -
  have l: "length (take 16 (drop p src)) = 16"
    using assms by simp
  have "PXOR Mask0303 (PSHUFB Reverse8 (take 16 (drop p src)))
      = map (\<lambda>c. c XOR 3) (rev (take 16 (drop p src)))"
    using l by (simp add: PSHUFB_Reverse8 PXOR_Mask0303)
  then show ?thesis
    by (simp add: rev_window [OF assms] take_map drop_map)
qed

lemma reverseComp2SSSE3_step:
  assumes len: "length src = length D"
    and cur: "cur = take a (map (\<lambda>c. c XOR 3) (rev src)) @ drop a D"
    and a: "d \<le> a" "a \<le> d + 16"
    and d: "s + 16 + d = length src"
  shows "MOVOU_load src (int s) = Some (take 16 (drop s src))"
    "MOVOU_store cur (int d) (PXOR Mask0303 (PSHUFB Reverse8 (take 16 (drop s src))))
       = Some (take (d + 16) (map (\<lambda>c. c XOR 3) (rev src)) @ drop (d + 16) D)"
proof -
  let ?R = "map (\<lambda>c. c XOR 3) (rev src)"
  show "MOVOU_load src (int s) = Some (take 16 (drop s src))"
    using d by (simp add: MOVOU_load_nat)
  have v: "PXOR Mask0303 (PSHUFB Reverse8 (take 16 (drop s src))) = take 16 (drop d ?R)"
    by (rule complement2_window [OF d])
  have lR: "length ?R = length D"
    using len by simp
  show "MOVOU_store cur (int d) (PXOR Mask0303 (PSHUFB Reverse8 (take 16 (drop s src))))
       = Some (take (d + 16) ?R @ drop (d + 16) D)"
    using d len by (intro store_window [OF lR cur a _ v]) simp
qed

lemma reverseComp2SSSE3Loop_correct:
  assumes len: "length src = length D"
    and cur: "cur = take d (map (\<lambda>c. c XOR 3) (rev src)) @ drop d D"
    and d: "s + 16 + d = length src"
  shows "\<exists>d'. reverseComp2SSSE3Loop Reverse8 Mask0303 (int (length src) - 16)
              (int s) (int d) src cur
            = Returns (take d' (map (\<lambda>c. c XOR 3) (rev src)) @ drop d' D)
          \<and> length src \<le> d' + 16 \<and> d' \<le> length src"
  using cur d
proof (induction s arbitrary: d cur rule: less_induct)
  case (less s)
  let ?n = "length src" and ?R = "map (\<lambda>c. c XOR 3) (rev src)"
  have "d \<le> d" "d \<le> d + 16" by simp_all
  note step = reverseComp2SSSE3_step [OF len less.prems(1) this less.prems(2)]
  let ?next = "take (d + 16) ?R @ drop (d + 16) D"
  show ?case
  proof (cases "int ?n - 16 > int d + 16")
    case True
    with less.prems(2) obtain s' where s': "s = s' + 16"
      using le_Suc_ex [of 16 s] by (auto simp add: add.commute)
    then have "s' < s" "s' + 16 + (d + 16) = ?n"
      using less.prems(2) by simp_all
    from less.IH [OF this(1) refl this(2)]
    obtain d' where rec: "reverseComp2SSSE3Loop Reverse8 Mask0303 (int ?n - 16)
              (int s') (int (d + 16)) src ?next
            = Returns (take d' ?R @ drop d' D)" "?n \<le> d' + 16" "d' \<le> ?n"
      by blast
    have e: "int s' = int s - 16" "int (d + 16) = int d + 16"
      using s' by simp_all
    have "reverseComp2SSSE3Loop Reverse8 Mask0303 (int ?n - 16) (int s) (int d) src cur
        = reverseComp2SSSE3Loop Reverse8 Mask0303 (int ?n - 16)
              (int s - 16) (int d + 16) src ?next"
      using True by (subst reverseComp2SSSE3Loop.simps) (simp add: step Let_def)
    also note rec(1) [unfolded e]
    finally show ?thesis using rec(2,3) by blast
  next
    case False
    have "reverseComp2SSSE3Loop Reverse8 Mask0303 (int ?n - 16) (int s) (int d) src cur
            = Returns ?next"
      using False by (subst reverseComp2SSSE3Loop.simps) (simp add: step Let_def)
    moreover have "?n \<le> d + 16 + 16" "d + 16 \<le> ?n" using False less.prems by simp_all
    ultimately show ?thesis by blast
  qed
qed

lemma reverseComp2SSSE3Asm_correct:
  assumes "16 \<le> length src" "length dst = length src"
  shows "reverseComp2SSSE3Asm dst src (int (length src)) = Returns (map (\<lambda>c. c XOR 3) (rev src))"
proof -
  let ?n = "length src" and ?R = "map (\<lambda>c. c XOR 3) (rev src)"
  have len: "length src = length dst" using assms(2) by simp
  obtain s where s: "?n = s + 16"
    using assms(1) le_Suc_ex [of 16 ?n] by (auto simp add: add.commute)
  have "dst = take 0 ?R @ drop 0 dst" "s + 16 + 0 = ?n" using s by simp_all
  from reverseComp2SSSE3Loop_correct [OF len this]
  obtain d' where loop: "reverseComp2SSSE3Loop Reverse8 Mask0303 (int ?n - 16)
              (int s) 0 src dst = Returns (take d' ?R @ drop d' dst)"
    and d': "?n \<le> d' + 16" "d' \<le> ?n"
    by auto
  have "s \<le> d'" "d' \<le> s + 16" "0 + 16 + s = ?n"
    using s d' by simp_all
  note fin = reverseComp2SSSE3_step [OF len refl this]
  have e: "int ?n - 16 = int s" "- 16 + int ?n = int s"
    using s by simp_all
  have "take (s + 16) ?R @ drop (s + 16) dst = ?R"
    using s len by simp
  then show ?thesis
    using loop fin
    by (simp add: reverseComp2SSSE3Asm_def Let_def andThen_def e)
qed



lemma PSHUFB_broadcast: "PSHUFB (replicate 16 0) d = replicate 16 (d ! 0)"
  by (simp add: PSHUFB_def)

lemma MOVD_0: "MOVD x ! 0 = word_of_int x"
  by (simp add: MOVD_def upt_rec)

lemma Reverse8Minus16_map: "Reverse8Minus16 = map (\<lambda>i. - 1 - word_of_nat i) [0..<16]"
  by (simp add: xmm_Reverse8Minus16 upt_rec)

lemma tiny_index:
  assumes "i < n" "n \<le> 16"
  shows "PADDB Reverse8Minus16 (PSHUFB (replicate 16 0) (MOVD (int n))) ! i
         = (word_of_nat (n - 1 - i) :: byte)"
proof -
  have i: "i < 16" using assms by simp
  have "PADDB Reverse8Minus16 (PSHUFB (replicate 16 0) (MOVD (int n))) ! i
      = word_of_int (int n) + Reverse8Minus16 ! i"
    using i by (simp add: PADDB_def PSHUFB_broadcast MOVD_0 xmm_Reverse8Minus16)
  also have "Reverse8Minus16 ! i = - 1 - word_of_nat i"
    using i by (simp only: Reverse8Minus16_map) simp
  also have "word_of_int (int n) + (- 1 - word_of_nat i) = (word_of_nat n - word_of_nat (i + 1) :: byte)"
    by simp
  also have "\<dots> = word_of_nat (n - (i + 1))"
    using assms(1) by (simp only: of_nat_diff [symmetric] Suc_leI Suc_eq_plus1 [symmetric])
  finally show ?thesis by simp
qed

lemma small_word_of_nat:
  assumes "k < 16"
  shows "(word_of_nat k :: byte) < 16" "unat (word_of_nat k :: byte) = k"
proof -
  show u: "unat (word_of_nat k :: byte) = k"
    using assms by (simp add: unat_of_nat)
  then show "(word_of_nat k :: byte) < 16"
    using assms by (simp add: word_less_nat_alt)
qed

lemma reverseComp2TinySSSE3Asm_correct:
  assumes "n \<le> 16" "16 \<le> length src" "16 \<le> length dst"
  shows "\<exists>V. reverseComp2TinySSSE3Asm dst src (int n) = Returns (V @ drop 16 dst)
           \<and> length V = 16 \<and> (\<forall>i < n. V ! i = src ! (n - 1 - i) XOR 3)"
proof -
  let ?X2 = "PADDB Reverse8Minus16 (PSHUFB (replicate 16 0) (MOVD (int n)))"
  let ?V = "PXOR Mask0303 (PSHUFB ?X2 (take 16 src))"
  have lX2: "length ?X2 = 16"
    by (simp add: PADDB_def PSHUFB_def xmm_Reverse8Minus16)
  have lV: "length ?V = 16"
    using lX2 by (simp add: PXOR_def PSHUFB_def xmm_Mask0303)
  have ld: "MOVOU_load src 0 = Some (take 16 src)"
    using assms(2) by (simp add: MOVOU_load_def)
  have st: "MOVOU_store dst 0 ?V = Some (?V @ drop 16 dst)"
    using assms(3) by (simp add: MOVOU_store_def)
  have "?V ! i = src ! (n - 1 - i) XOR 3" if i: "i < n" for i
  proof -
    define k where "k = n - 1 - i"
    have i16: "i < 16" "k < 16" using i assms(1) by (simp_all add: k_def)
    note c = small_word_of_nat [OF i16(2)]
    have "?X2 ! i = word_of_nat k"
      unfolding k_def by (rule tiny_index [OF i assms(1)])
    then have "PSHUFB ?X2 (take 16 src) ! i
        = (if bit (word_of_nat k :: byte) 7 then 0
           else take 16 src ! unat ((word_of_nat k :: byte) AND 15))"
      using i16 lX2 by (simp add: PSHUFB_def)
    also have "\<dots> = take 16 src ! k"
      by (simp only: code_no_bit7 [OF c(1)] code_and_15 [OF c(1)] c(2) if_False)
    also have "\<dots> = src ! k"
      using i16 by simp
    finally have "PSHUFB ?X2 (take 16 src) ! i = src ! k" .
    moreover have "?V ! i = PSHUFB ?X2 (take 16 src) ! i XOR 3"
      using i16 lX2 by (simp add: PXOR_def xmm_Mask0303 PSHUFB_def)
    ultimately show ?thesis
      by (simp add: k_def)
  qed
  with lV ld st show ?thesis
    by (intro exI [of _ ?V]) (simp add: reverseComp2TinySSSE3Asm_def Let_def)
qed

section \<open>The claims\<close>



text \<open>
  Claim C1.  When \<open>len(src) = (len(dst) + 1) / 2\<close>, \<open>UnpackSeq(dst, src)\<close> returns, and
  afterwards every position \<open>p\<close> of \<open>dst\<close> holds \<open>src[p/2] >> 4\<close> when \<open>p\<close> is even and
  \<open>src[p/2] & 15\<close> when \<open>p\<close> is odd.
\<close>

theorem UnpackSeq_correct:
  assumes "length src = (length dst + 1) div 2"
  shows "\<exists>dst'. UnpackSeq dst src = Returns dst' \<and> length dst' = length dst \<and>
           (\<forall>p < length dst. dst' ! p =
              (if even p then drop_bit 4 (src ! (p div 2)) else src ! (p div 2) AND 15))"
  by (simp add: UnpackSeq_main [OF assms])

theorem UnpackSeq_correct_witness:
  "length [0x12 :: byte] = (length [0, 0 :: byte] + 1) div 2 \<and>
   UnpackSeq [0, 0] [0x12] = Returns [1, 2]"
proof -
  have len: "length [0x12 :: byte] = (length [0, 0 :: byte] + 1) div 2"
    by simp
  from UnpackSeq_correct [OF len]
  obtain dst' where r: "UnpackSeq [0, 0] [0x12] = Returns dst'" and l: "length dst' = 2"
    and p: "\<forall>p < 2. dst' ! p = (if even p then drop_bit 4 ([0x12 :: byte] ! (p div 2))
                                   else [0x12 :: byte] ! (p div 2) AND 15)"
    by auto
  from p have "dst' ! 0 = 1" "dst' ! 1 = 2"
    by simp_all
  with l have "dst' = [1, 2]"
    by (intro nth_equalityI) (auto simp add: less_Suc_eq numeral_2_eq_2)
  with r len show ?thesis by simp
qed

text \<open>
  Claim C7.  When \<open>len(src) \<noteq> (len(dst) + 1) / 2\<close>, \<open>UnpackSeq(dst, src)\<close> panics with its
  descriptive message, and \<open>dst\<close> is exactly what it was before the call.
\<close>

theorem UnpackSeq_length_mismatch:
  assumes "length src \<noteq> (length dst + 1) div 2"
  shows "UnpackSeq dst src
         = Fails (Panic ''UnpackSeq() requires len(src) == (len(dst) + 1) / 2.'') dst"
proof -
  have "drop_bit 1 (length dst) + (length dst AND 1) = (length dst + 1) div 2"
    by (simp add: drop_bit_eq_div and_one_eq) presburger
  with assms show ?thesis
    by (simp add: UnpackSeq_def Let_def)
qed

theorem UnpackSeq_length_mismatch_witness:
  "length [0x12 :: byte] \<noteq> (length [7, 7, 7 :: byte] + 1) div 2 \<and>
   UnpackSeq [7, 7, 7] [0x12]
     = Fails (Panic ''UnpackSeq() requires len(src) == (len(dst) + 1) / 2.'') [7, 7, 7]"
  using UnpackSeq_length_mismatch [of "[0x12]" "[7, 7, 7]"] by simp



text \<open>
  Claim C2.  When \<open>len(dst) = (len(src) + 1) / 2\<close> and every element of \<open>src\<close> is a code in
  \<open>[0, 15]\<close>, \<open>PackSeq(dst, src)\<close> returns; afterwards \<open>dst[q] = (src[2q] << 4) | src[2q+1]\<close>
  for every full pair \<open>q\<close>, and for odd \<open>len(src)\<close> the final byte of \<open>dst\<close> is
  \<open>src[len(src)-1] << 4\<close>, whose low nibble is zero.
\<close>

theorem PackSeq_correct:
  assumes "length dst = (length src + 1) div 2" and "\<forall>c \<in> set src. c < 16"
  shows "\<exists>dst'. PackSeq dst src = Returns dst' \<and> length dst' = length dst \<and>
           (\<forall>q < length src div 2. dst' ! q = push_bit 4 (src ! (2 * q)) OR src ! (2 * q + 1)) \<and>
           (odd (length src) \<longrightarrow>
              dst' ! (length src div 2) = push_bit 4 (src ! (length src - 1)) \<and>
              dst' ! (length src div 2) AND 15 = 0)"
proof -
  let ?r = "pack_bytes src @ (if odd (length src) then [push_bit 4 (src ! (length src - 1))] else [])"
  have "PackSeq dst src = Returns ?r"
    by (rule PackSeq_main [OF assms])
  moreover have "length ?r = length dst"
    using assms(1) by (auto simp add: length_pack_bytes elim: oddE)
  moreover have "\<forall>q < length src div 2. ?r ! q = push_bit 4 (src ! (2 * q)) OR src ! (2 * q + 1)"
    by (simp add: nth_append length_pack_bytes nth_pack_bytes)
  moreover have "odd (length src) \<longrightarrow>
              ?r ! (length src div 2) = push_bit 4 (src ! (length src - 1)) \<and>
              ?r ! (length src div 2) AND 15 = 0"
    by (simp add: nth_append length_pack_bytes push_4_and_15)
  ultimately show ?thesis by blast
qed

theorem PackSeq_correct_witness:
  "length [0, 0 :: byte] = (length [1, 2, 3 :: byte] + 1) div 2 \<and>
   PackSeq [0, 0] [1, 2, 3] = Returns [0x12, 0x30]"
proof -
  have len: "length [0, 0 :: byte] = (length [1, 2, 3 :: byte] + 1) div 2"
    and codes: "\<forall>c \<in> set [1, 2, 3 :: byte]. c < 16"
    by simp_all
  from PackSeq_correct [OF len codes]
  obtain dst' where r: "PackSeq [0, 0] [1, 2, 3] = Returns dst'" and l: "length dst' = 2"
    and p: "\<forall>q < 1. dst' ! q = push_bit 4 ([1, 2, 3 :: byte] ! (2 * q)) OR [1, 2, 3 :: byte] ! (2 * q + 1)"
    and o: "dst' ! 1 = push_bit 4 ([1, 2, 3 :: byte] ! 2)"
    by auto
  from p o have "dst' ! 0 = 0x12" "dst' ! 1 = 0x30"
    by simp_all
  with l have "dst' = [0x12, 0x30]"
    by (intro nth_equalityI) (auto simp add: less_Suc_eq numeral_2_eq_2)
  with r len show ?thesis by simp
qed

text \<open>
  Claim C3.  For a sequence \<open>s\<close> of codes in \<open>[0, 15]\<close>, of even or odd length, \<open>PackSeq\<close> into
  a buffer of \<open>(len(s) + 1) / 2\<close> bytes followed by \<open>UnpackSeq\<close> of that buffer into a buffer
  of \<open>len(s)\<close> bytes gives back exactly \<open>s\<close>.
\<close>

theorem PackSeq_UnpackSeq_round_trip:
  assumes "\<forall>c \<in> set s. c < 16" and "length packed = (length s + 1) div 2"
    and "length out = length s"
  shows "\<exists>p. PackSeq packed s = Returns p \<and> UnpackSeq out p = Returns s"
proof -
  define P where
    "P = pack_bytes s @ (if odd (length s) then [push_bit 4 (s ! (length s - 1))] else [])"
  have pack: "PackSeq packed s = Returns P"
    unfolding P_def by (rule PackSeq_main [OF assms(2,1)])
  have lp: "length P = (length out + 1) div 2"
    using assms(3) by (auto simp add: P_def length_pack_bytes elim: oddE)
  have c: "s ! j < 16" if "j < length s" for j
    using assms(1) that by simp
  have full: "P ! q = push_bit 4 (s ! (2 * q)) OR s ! (2 * q + 1)" if "2 * q + 1 < length s" for q
  proof -
    from that have "q < length s div 2" by simp
    then show ?thesis
      by (simp add: P_def nth_append length_pack_bytes nth_pack_bytes)
  qed
  have last: "P ! q = push_bit 4 (s ! (2 * q))" if "length s = 2 * q + 1" for q
    using that by (simp add: P_def nth_append length_pack_bytes)
  have nth: "(if even i then drop_bit 4 (P ! (i div 2)) else P ! (i div 2) AND 15) = s ! i"
    if i: "i < length s" for i
  proof (cases "even i")
    case True
    then obtain q where q: "i = 2 * q" by (auto elim: evenE)
    have "drop_bit 4 (P ! q) = s ! (2 * q)"
    proof (cases "2 * q + 1 < length s")
      case True
      have "drop_bit 4 (push_bit 4 (s ! (2 * q)) OR s ! (2 * q + 1)) = s ! (2 * q)"
        using True by (intro unpack_pack_hi c) simp_all
      then show ?thesis by (simp only: full [OF True])
    next
      case False
      with i q have l: "length s = 2 * q + 1" by simp
      have "drop_bit 4 (push_bit 4 (s ! (2 * q))) = s ! (2 * q)"
        using l by (intro unpack_pack_last c) simp
      then show ?thesis by (simp only: last [OF l])
    qed
    then show ?thesis by (simp add: q)
  next
    case False
    then obtain q where q: "i = 2 * q + 1" by (auto elim: oddE)
    have lt: "2 * q + 1 < length s" using i q by simp
    have "(push_bit 4 (s ! (2 * q)) OR s ! (2 * q + 1)) AND 15 = s ! (2 * q + 1)"
      using lt by (intro unpack_pack_lo c)
    then have "P ! q AND 15 = s ! (2 * q + 1)" by (simp only: full [OF lt])
    then show ?thesis by (simp add: q)
  qed
  have "map (\<lambda>p. if even p then drop_bit 4 (P ! (p div 2)) else P ! (p div 2) AND 15)
          [0..<length out] = s"
    using assms(3) by (intro nth_equalityI) (simp_all add: nth del: if_split cong: if_cong split del: if_split)
  with UnpackSeq_main [OF lp] pack show ?thesis
    by simp
qed

theorem PackSeq_UnpackSeq_round_trip_witness:
  "length [0, 0 :: byte] = (length [1, 2, 3 :: byte] + 1) div 2 \<and>
   length [0, 0, 0 :: byte] = length [1, 2, 3 :: byte] \<and>
   (\<exists>p. PackSeq [0, 0] [1, 2, 3] = Returns p \<and> UnpackSeq [0, 0, 0] p = Returns [1, 2, 3])"
  using PackSeq_UnpackSeq_round_trip [of "[1, 2, 3]" "[0, 0]" "[0, 0, 0]"] by simp



text \<open>
  Claim C4.  When \<open>len(dst) = len(src) = n\<close> and every element of \<open>src\<close> is a code in
  \<open>[0, 15]\<close>, \<open>ReverseComp(dst, src)\<close> returns, and afterwards
  \<open>dst[i] = revCompTable[src[n-1-i]]\<close> for every \<open>i < n\<close>, where \<open>revCompTable\<close> is the table
  \<open>{0,8,4,12,2,10,6,14,1,9,5,13,3,11,7,15}\<close>.
\<close>

theorem ReverseComp_correct:
  assumes "length dst = length src" and "\<forall>c \<in> set src. c < 16"
  shows "\<exists>dst'. ReverseComp dst src = Returns dst' \<and> length dst' = length src \<and>
           (\<forall>i < length src. dst' ! i = revCompTable ! unat (src ! (length src - 1 - i))) \<and>
           revCompTable = [0, 8, 4, 12, 2, 10, 6, 14, 1, 9, 5, 13, 3, 11, 7, 15]"
proof -
  have "map comp4 (rev src) ! i = revCompTable ! unat (src ! (length src - 1 - i))"
    if "i < length src" for i
    using that by (simp add: rev_nth comp4_def)
  then show ?thesis
    by (simp add: ReverseComp_main [OF assms] revCompTable_def)
qed

theorem ReverseComp_correct_witness:
  "length [0, 0, 0, 0 :: byte] = length [1, 1, 2, 15 :: byte] \<and>
   ReverseComp [0, 0, 0, 0] [1, 1, 2, 15] = Returns [15, 4, 8, 8]"
proof -
  have len: "length [0, 0, 0, 0 :: byte] = length [1, 1, 2, 15 :: byte]"
    and codes: "\<forall>c \<in> set [1, 1, 2, 15 :: byte]. c < 16"
    by simp_all
  from ReverseComp_correct [OF len codes]
  obtain dst' where r: "ReverseComp [0, 0, 0, 0] [1, 1, 2, 15] = Returns dst'"
    and l: "length dst' = length [1, 1, 2, 15 :: byte]"
    and p: "\<forall>i < length [1, 1, 2, 15 :: byte]. dst' ! i =
       revCompTable ! unat ([1, 1, 2, 15 :: byte] ! (length [1, 1, 2, 15 :: byte] - 1 - i))"
    by blast
  from p have "dst' ! 0 = 15" "dst' ! 1 = 4" "dst' ! 2 = 8" "dst' ! 3 = 8"
    by (simp_all add: revCompTable_def)
  with l have "dst' = [15, 4, 8, 8]"
    by (intro nth_equalityI) (auto simp add: less_Suc_eq numeral_eq_Suc)
  with r len show ?thesis by simp
qed

text \<open>
  Claim C5.  For a sequence \<open>s\<close> of codes in \<open>[0, 15]\<close> (of a length that a Go slice can
  have), \<open>ReverseComp\<close> applied to the result of \<open>ReverseComp\<close> gives \<open>s\<close>, two successive
  calls of \<open>ReverseCompInplace\<close> restore the buffer, and \<open>revCompTable[revCompTable[x]] = x\<close>
  for every code \<open>x\<close>.
\<close>

theorem reverse_complement_involution:
  assumes "\<forall>c \<in> set s. c < 16" and "length s < 2 ^ 64"
    and "length d1 = length s" and "length d2 = length s"
  shows "(\<exists>r. ReverseComp d1 s = Returns r \<and> ReverseComp d2 r = Returns s) \<and>
         (\<exists>b. ReverseCompInplace s = Returns b \<and> ReverseCompInplace b = Returns s) \<and>
         (\<forall>x :: byte. x < 16 \<longrightarrow> revCompTable ! unat (revCompTable ! unat x) = x)"
proof -
  let ?r = "map comp4 (rev s)"
  have c: "\<forall>c \<in> set ?r. c < 16"
    using assms(1) by (rule reverse_complement_codes)
  have twice: "map comp4 (rev ?r) = s"
    using assms(1) by (rule reverse_complement_twice)
  have "ReverseComp d1 s = Returns ?r"
    by (rule ReverseComp_main [OF assms(3,1)])
  moreover have "ReverseComp d2 ?r = Returns s"
    using ReverseComp_main [of d2 ?r] assms(4) c twice by simp
  moreover have "ReverseCompInplace s = Returns ?r"
    by (rule ReverseCompInplace_main [OF assms(1,2)])
  moreover have "ReverseCompInplace ?r = Returns s"
    using ReverseCompInplace_main [of ?r] assms(2) c twice by simp
  moreover have "\<forall>x :: byte. x < 16 \<longrightarrow> revCompTable ! unat (revCompTable ! unat x) = x"
    using comp4_involution by (simp add: comp4_def)
  ultimately show ?thesis by blast
qed

theorem reverse_complement_involution_witness:
  "length [1, 1, 2, 15, 7 :: byte] < 2 ^ 64 \<and>
   length [0, 0, 0, 0, 0 :: byte] = length [1, 1, 2, 15, 7 :: byte] \<and>
   (\<exists>r. ReverseComp [0, 0, 0, 0, 0] [1, 1, 2, 15, 7] = Returns r \<and>
        ReverseComp [0, 0, 0, 0, 0] r = Returns [1, 1, 2, 15, 7]) \<and>
   (\<exists>b. ReverseCompInplace [1, 1, 2, 15, 7] = Returns b \<and>
        ReverseCompInplace b = Returns [1, 1, 2, 15, 7]) \<and>
   revCompTable ! unat (revCompTable ! unat (3 :: byte)) = 3"
proof -
  have codes: "\<forall>c \<in> set [1, 1, 2, 15, 7 :: byte]. c < 16"
    and len: "length [1, 1, 2, 15, 7 :: byte] < 2 ^ 64"
      "length [0, 0, 0, 0, 0 :: byte] = length [1, 1, 2, 15, 7 :: byte]"
    by simp_all
  note inv = reverse_complement_involution [OF codes len(1) len(2) len(2)]
  from inv have "\<forall>x :: byte. x < 16 \<longrightarrow> revCompTable ! unat (revCompTable ! unat x) = x"
    by (elim conjE)
  then have "revCompTable ! unat (revCompTable ! unat (3 :: byte)) = 3"
    by (elim allE [of _ 3]) simp
  with inv len show ?thesis
    by (elim conjE) (intro conjI)
qed

text \<open>
  Claim C6.  For a buffer of exactly \<open>2 * 16 + 1 = 33\<close> codes in \<open>[0, 15]\<close>,
  \<open>ReverseCompInplace(buf)\<close> leaves in \<open>buf\<close> what \<open>ReverseComp(dst, c)\<close> writes into \<open>dst\<close> for
  a copy \<open>c\<close> of the original contents of \<open>buf\<close>.
\<close>

theorem ReverseCompInplace_agrees_at_33:
  assumes "length buf = 33" and "\<forall>c \<in> set buf. c < 16" and "length dst = 33"
  shows "\<exists>r. ReverseCompInplace buf = Returns r \<and> ReverseComp dst buf = Returns r"
proof -
  have "length buf < 2 ^ 64" using assms(1) by simp
  from ReverseCompInplace_main [OF assms(2) this]
  have "ReverseCompInplace buf = Returns (map comp4 (rev buf))" .
  moreover have "ReverseComp dst buf = Returns (map comp4 (rev buf))"
    using assms(1,3) by (intro ReverseComp_main assms(2)) simp
  ultimately show ?thesis by blast
qed

theorem ReverseCompInplace_agrees_at_33_witness:
  "length [0, 1, 2, 3, 4, 5, 6, 7, 8, 9, 10, 11, 12, 13, 14, 15,
           15, 14, 13, 12, 11, 10, 9, 8, 7, 6, 5, 4, 3, 2, 1, 0, 5 :: byte] = 33 \<and>
   length (replicate 33 (0 :: byte)) = 33 \<and>
   (\<exists>r. ReverseCompInplace [0, 1, 2, 3, 4, 5, 6, 7, 8, 9, 10, 11, 12, 13, 14, 15,
           15, 14, 13, 12, 11, 10, 9, 8, 7, 6, 5, 4, 3, 2, 1, 0, 5] = Returns r \<and>
        ReverseComp (replicate 33 0) [0, 1, 2, 3, 4, 5, 6, 7, 8, 9, 10, 11, 12, 13, 14, 15,
           15, 14, 13, 12, 11, 10, 9, 8, 7, 6, 5, 4, 3, 2, 1, 0, 5] = Returns r)"
proof -
  let ?buf = "[0, 1, 2, 3, 4, 5, 6, 7, 8, 9, 10, 11, 12, 13, 14, 15,
           15, 14, 13, 12, 11, 10, 9, 8, 7, 6, 5, 4, 3, 2, 1, 0, 5 :: byte]"
  have l: "length ?buf = 33" and c: "\<forall>c \<in> set ?buf. c < 16"
    and d: "length (replicate 33 (0 :: byte)) = 33"
    by simp_all
  from ReverseCompInplace_agrees_at_33 [OF l c d] l d show ?thesis
    by simp
qed



text \<open>
  Claim C8.  For a table \<open>t\<close> of 16 entries and \<open>len(src) = (len(dst) + 1) / 2\<close>,
  \<open>UnpackAndReplaceSeq(dst, src, t)\<close> returns; afterwards every position \<open>p\<close> of \<open>dst\<close>
  holds \<open>t[src[p/2] >> 4]\<close> when \<open>p\<close> is even and \<open>t[src[p/2] & 15]\<close> when \<open>p\<close> is odd, which is
  the table applied to each byte that \<open>UnpackSeq\<close> writes.
\<close>

theorem UnpackAndReplaceSeq_correct:
  assumes "length t = 16" and "length src = (length dst + 1) div 2"
  shows "\<exists>dst'. UnpackAndReplaceSeq dst src t = Returns dst' \<and> length dst' = length dst \<and>
           (\<forall>p < length dst. dst' ! p =
              (if even p then t ! unat (drop_bit 4 (src ! (p div 2)))
               else t ! unat (src ! (p div 2) AND 15))) \<and>
           (\<exists>u. UnpackSeq dst src = Returns u \<and> dst' = map (\<lambda>c. t ! unat c) u)"
  by (simp add: UnpackAndReplaceSeq_main [OF assms(2,1)] UnpackSeq_main [OF assms(2)] if_distrib
      cong: if_cong)

theorem UnpackAndReplaceSeq_correct_witness:
  "length [0, 8, 4, 12, 2, 10, 6, 14, 1, 9, 5, 13, 3, 11, 7, 15 :: byte] = 16 \<and>
   length [0x12 :: byte] = (length [0, 0 :: byte] + 1) div 2 \<and>
   UnpackAndReplaceSeq [0, 0] [0x12] [0, 8, 4, 12, 2, 10, 6, 14, 1, 9, 5, 13, 3, 11, 7, 15]
     = Returns [8, 4]"
proof -
  let ?t = "[0, 8, 4, 12, 2, 10, 6, 14, 1, 9, 5, 13, 3, 11, 7, 15 :: byte]"
  have t: "length ?t = 16" and len: "length [0x12 :: byte] = (length [0, 0 :: byte] + 1) div 2"
    by simp_all
  from UnpackAndReplaceSeq_correct [OF t len]
  obtain dst' where r: "UnpackAndReplaceSeq [0, 0] [0x12] ?t = Returns dst'"
    and l: "length dst' = 2"
    and p: "\<forall>p < 2. dst' ! p = (if even p then ?t ! unat (drop_bit 4 ([0x12 :: byte] ! (p div 2)))
                                   else ?t ! unat ([0x12 :: byte] ! (p div 2) AND 15))"
    by auto
  from p have "dst' ! 0 = 8" "dst' ! 1 = 4"
    by simp_all
  with l have "dst' = [8, 4]"
    by (intro nth_equalityI) (auto simp add: less_Suc_eq numeral_2_eq_2)
  with r t len show ?thesis by simp
qed

text \<open>
  Claim C10.  With empty buffers every safe entry point returns normally.  Each write of
  the model is checked against the length of the buffer and would fail on an empty one,
  so returning means that no write was made.
\<close>

theorem empty_input_returns:
  "UnpackSeq [] [] = Returns [] \<and> PackSeq [] [] = Returns [] \<and>
   UnpackAndReplaceSeq [] [] t = Returns [] \<and>
   ReverseComp [] [] = Returns [] \<and> ReverseCompInplace [] = Returns []"
  by (simp add: UnpackSeq_def PackSeq_def UnpackAndReplaceSeq_def ReverseComp_def
      ReverseCompInplace_def bytesPerVec_def andThen_def UnpackSeq_loop.simps PackSeq_loop.simps
      UnpackAndReplaceSeq_loop.simps ReverseComp_loop.simps ReverseCompInplace_loop.simps)



lemma reverseComp2Tiny_prefix:
  assumes "n \<le> 16" "16 \<le> length src" "16 \<le> length dst"
  shows "\<exists>d'. reverseComp2TinySSSE3Asm dst src (int n) = Returns d' \<and> length d' = length dst
           \<and> take n d' = map (\<lambda>c. c XOR 3) (rev (take n src))"
proof -
  from reverseComp2TinySSSE3Asm_correct [OF assms]
  obtain V where V: "reverseComp2TinySSSE3Asm dst src (int n) = Returns (V @ drop 16 dst)"
    "length V = 16" "\<forall>i < n. V ! i = src ! (n - 1 - i) XOR 3"
    by blast
  have "take n (V @ drop 16 dst) = map (\<lambda>c. c XOR 3) (rev (take n src))"
  proof (rule nth_equalityI)
    show "length (take n (V @ drop 16 dst)) = length (map (\<lambda>c. c XOR 3) (rev (take n src)))"
      using assms V(2) by simp
  next
    fix i assume "i < length (take n (V @ drop 16 dst))"
    then have i: "i < n" by simp
    then have "take n (V @ drop 16 dst) ! i = V ! i"
      using assms(1) V(2) by (simp add: nth_append)
    also have "\<dots> = src ! (n - 1 - i) XOR 3"
      using V(3) i by simp
    also have "\<dots> = map (\<lambda>c. c XOR 3) (rev (take n src)) ! i"
      using i assms(1,2) by (simp add: rev_nth)
    finally show "take n (V @ drop 16 dst) ! i = map (\<lambda>c. c XOR 3) (rev (take n src)) ! i" .
  qed
  moreover have "length (V @ drop 16 dst) = length dst"
    using assms(3) V(2) by simp
  ultimately show ?thesis
    using V(1) by blast
qed

text \<open>
  Claim C9.  The assembly file holds the reverse complement over the 2-bit alphabet, whose
  complement is \<open>code XOR 3\<close> (the constant \<open>Mask0303\<close>): \<open>reverseComp2SSSE3Asm\<close> for 16 bytes
  and more, \<open>reverseComp2TinySSSE3Asm\<close> for at most 16 bytes in buffers that are at least one
  vector wide.  Both write \<open>src[n-1-i] XOR 3\<close> at position \<open>i\<close>, and the input \<open>[0,0,1,2]\<close>
  gives \<open>[1,2,3,3]\<close>, whatever follows the four bytes in the two buffers.
\<close>

theorem reverseComp2_transform:
  fixes n :: nat
  shows "Mask0303 = replicate 16 3 \<and>
    (16 \<le> length src \<longrightarrow> length dst = length src \<longrightarrow>
       reverseComp2SSSE3Asm dst src (int (length src)) = Returns (map (\<lambda>c. c XOR 3) (rev src))) \<and>
    (n \<le> 16 \<longrightarrow> 16 \<le> length a \<longrightarrow> 16 \<le> length b \<longrightarrow>
       (\<exists>d'. reverseComp2TinySSSE3Asm b a (int n) = Returns d' \<and> length d' = length b \<and>
             take n d' = map (\<lambda>c. c XOR 3) (rev (take n a)))) \<and>
    (length d0 = 4 \<longrightarrow> length pd = 12 \<longrightarrow> length ps = 12 \<longrightarrow>
       (\<exists>rest. reverseComp2TinySSSE3Asm (d0 @ pd) ([0, 0, 1, 2] @ ps) 4
                = Returns ([1, 2, 3, 3] @ rest)))"
proof (intro conjI impI)
  show "Mask0303 = replicate 16 3"
    by (rule xmm_Mask0303)
next
  assume "16 \<le> length src" "length dst = length src"
  then show "reverseComp2SSSE3Asm dst src (int (length src)) = Returns (map (\<lambda>c. c XOR 3) (rev src))"
    by (rule reverseComp2SSSE3Asm_correct)
next
  assume "n \<le> 16" "16 \<le> length a" "16 \<le> length b"
  then show "\<exists>d'. reverseComp2TinySSSE3Asm b a (int n) = Returns d' \<and> length d' = length b \<and>
             take n d' = map (\<lambda>c. c XOR 3) (rev (take n a))"
    by (rule reverseComp2Tiny_prefix)
next
  assume l: "length d0 = 4" "length pd = 12" "length ps = 12"
  have "(4 :: nat) \<le> 16" "16 \<le> length ([0, 0, 1, 2 :: byte] @ ps)" "16 \<le> length (d0 @ pd)"
    using l by simp_all
  from reverseComp2Tiny_prefix [OF this]
  obtain d' where d': "reverseComp2TinySSSE3Asm (d0 @ pd) ([0, 0, 1, 2] @ ps) (int 4) = Returns d'"
    "take 4 d' = map (\<lambda>c. c XOR 3) (rev (take 4 ([0, 0, 1, 2 :: byte] @ ps)))"
    by blast
  from d'(2) have "take 4 d' = [1, 2, 3, 3]"
    by simp
  then have "d' = [1, 2, 3, 3] @ drop 4 d'"
    by (metis append_take_drop_id)
  with d'(1) show "\<exists>rest. reverseComp2TinySSSE3Asm (d0 @ pd) ([0, 0, 1, 2] @ ps) 4
                = Returns ([1, 2, 3, 3] @ rest)"
    by (intro exI [of _ "drop 4 d'"]) simp
qed

theorem reverseComp2_transform_witness:
  "reverseComp2SSSE3Asm (replicate 16 0) [0, 1, 2, 3, 0, 1, 2, 3, 3, 3, 3, 3, 0, 0, 1, 2] 16
     = Returns [1, 2, 3, 3, 0, 0, 0, 0, 0, 1, 2, 3, 0, 1, 2, 3] \<and>
   (\<exists>d'. reverseComp2TinySSSE3Asm (replicate 16 0) (replicate 16 1) 2 = Returns d' \<and>
         take 2 d' = [2, 2]) \<and>
   (\<exists>rest. reverseComp2TinySSSE3Asm ([9, 9, 9, 9] @ replicate 12 9) ([0, 0, 1, 2] @ replicate 12 7) 4
            = Returns ([1, 2, 3, 3] @ rest))"
proof -
  let ?s = "[0, 1, 2, 3, 0, 1, 2, 3, 3, 3, 3, 3, 0, 0, 1, 2 :: byte]"
  note t = reverseComp2_transform [of ?s "replicate 16 0" 2 "replicate 16 1" "replicate 16 0"
      "[9, 9, 9, 9]" "replicate 12 9" "replicate 12 7"]
  from t have "reverseComp2SSSE3Asm (replicate 16 0) ?s (int (length ?s))
       = Returns (map (\<lambda>c. c XOR 3) (rev ?s))"
    by simp
  then have 1: "reverseComp2SSSE3Asm (replicate 16 0) ?s 16
     = Returns [1, 2, 3, 3, 0, 0, 0, 0, 0, 1, 2, 3, 0, 1, 2, 3]"
    by simp
  from t have "\<exists>d'. reverseComp2TinySSSE3Asm (replicate 16 0) (replicate 16 1) (int 2) = Returns d' \<and>
         length d' = length (replicate 16 (0 :: byte)) \<and>
         take 2 d' = map (\<lambda>c. c XOR 3) (rev (take 2 (replicate 16 (1 :: byte))))"
    by simp
  then have 2: "\<exists>d'. reverseComp2TinySSSE3Asm (replicate 16 0) (replicate 16 1) 2 = Returns d' \<and>
         take 2 d' = [2, 2]"
    by (auto simp add: numeral_2_eq_2)
  from t have 3: "\<exists>rest. reverseComp2TinySSSE3Asm ([9, 9, 9, 9] @ replicate 12 9)
            ([0, 0, 1, 2] @ replicate 12 7) 4 = Returns ([1, 2, 3, 3] @ rest)"
    by simp
  from 1 2 3 show ?thesis by (intro conjI)
qed

end
